theory Spec2Isabelle
  imports Main
begin

section \<open>The automation driver, as the wrappers see it\<close>

text \<open>
  The repository is a layer over a browser driver. The driver is not part of it, so the
  model takes the driver as data: a \<open>page\<close> record holds, besides the timeout settings
  the code reads, the answers of the driver's queries as functions of the time of the call.
  Times are milliseconds; a \<open>number\<close> that is a timeout is an \<open>int\<close> (fractions and NaN
  are left out), \<open>undefined\<close> is \<open>None\<close>.
\<close>

type_synonym handle = nat

text \<open>What a query is relative to: the whole document (\<open>page.$x\<close>) or a node (\<open>self.$x\<close>).\<close>

datatype root = Document | Node handle

text \<open>
  \<open>PompTimeoutError\<close> carries the selector and the timeout its message prints.
  \<open>TypeError\<close> is what reading a property of \<open>undefined\<close> throws. \<open>DriverError\<close> is
  any rejection of the driver (its own TimeoutError, a detached node, a closed session).
  \<open>Unsettled\<close> stands for awaiting a promise that never settles.
\<close>

datatype error = PompTimeoutError string int | TypeError | DriverError string | Unsettled

text \<open>
  \<open>timeoutSettings\<close> is the private \<open>_timeoutSettings\<close>: \<open>None\<close> when the page object has
  no such property, \<open>Some None\<close> when the object has no \<open>timeout\<close> function, \<open>Some (Some d)\<close>
  when \<open>timeout()\<close> returns \<open>d\<close>. Every driver call answers with the time it takes and
  its result.

  Three things can be due in the same millisecond of a poll: answers of the predicate that
  arrive, the interval timer and the deadline timer. The runtime handles them one after
  the other, in an order the code does not control; \<open>ties\<close> gives the order it takes in
  each millisecond of a poll.
\<close>

datatype due = Answers | IntervalTimer | DeadlineTimer

datatype tie =
    AnswersIntervalDeadline
  | AnswersDeadlineInterval
  | IntervalAnswersDeadline
  | IntervalDeadlineAnswers
  | DeadlineAnswersInterval
  | DeadlineIntervalAnswers

fun in_order :: "tie \<Rightarrow> due list" where
  "in_order AnswersIntervalDeadline = [Answers, IntervalTimer, DeadlineTimer]"
| "in_order AnswersDeadlineInterval = [Answers, DeadlineTimer, IntervalTimer]"
| "in_order IntervalAnswersDeadline = [IntervalTimer, Answers, DeadlineTimer]"
| "in_order IntervalDeadlineAnswers = [IntervalTimer, DeadlineTimer, Answers]"
| "in_order DeadlineAnswersInterval = [DeadlineTimer, Answers, IntervalTimer]"
| "in_order DeadlineIntervalAnswers = [DeadlineTimer, IntervalTimer, Answers]"

record page =
  timeoutSettings :: "int option option"
  ties :: "nat \<Rightarrow> tie"
  xpath_query :: "root \<Rightarrow> string \<Rightarrow> nat \<Rightarrow> nat \<times> (error + handle list)"
  css_query :: "root \<Rightarrow> string \<Rightarrow> nat \<Rightarrow> nat \<times> (error + handle list)"
  wait_selector :: "root \<Rightarrow> string \<Rightarrow> int option \<Rightarrow> nat \<Rightarrow> nat \<times> (error + handle)"
  read_property :: "handle \<Rightarrow> string \<Rightarrow> nat \<Rightarrow> nat \<times> (error + string)"

section \<open>waitFor.ts\<close>

subsection \<open>The effective timeout\<close>

text \<open>
  \<open>timeout = timeout || (page as any)._timeoutSettings.timeout() || 10000\<close>:
  \<open>||\<close> takes its right operand when the left is falsy, and \<open>undefined\<close> and \<open>0\<close> are
  the falsy numbers here. The property chain has no optional chaining, so it throws when
  \<open>_timeoutSettings\<close> or its \<open>timeout\<close> is missing.
\<close>

definition truthy_number :: "int option \<Rightarrow> bool" where
  "truthy_number v = (case v of None \<Rightarrow> False | Some n \<Rightarrow> n \<noteq> 0)"

definition waitFor_timeout :: "page \<Rightarrow> int option \<Rightarrow> error + int" where
  "waitFor_timeout pg timeout =
     (case timeout of
        Some t \<Rightarrow>
          if t \<noteq> 0 then Inr t
          else (case timeoutSettings pg of
                  None \<Rightarrow> Inl TypeError
                | Some None \<Rightarrow> Inl TypeError
                | Some (Some d) \<Rightarrow> Inr (if d \<noteq> 0 then d else 10000))
      | None \<Rightarrow>
          (case timeoutSettings pg of
             None \<Rightarrow> Inl TypeError
           | Some None \<Rightarrow> Inl TypeError
           | Some (Some d) \<Rightarrow> Inr (if d \<noteq> 0 then d else 10000)))"

text \<open>
  The constructor of \<open>PompTimeoutError\<close> computes the timeout of its message with
  \<open>timeout || (page as any)?._timeoutSettings?.timeout?.() || 10000\<close>: the optional
  chain yields \<open>undefined\<close> where a link is missing.
\<close>

definition error_timeout :: "page \<Rightarrow> int option \<Rightarrow> int" where
  "error_timeout pg timeout =
     (if truthy_number timeout then (case timeout of Some t \<Rightarrow> t | None \<Rightarrow> 0)
      else (case timeoutSettings pg of
              Some (Some d) \<Rightarrow> if d \<noteq> 0 then d else 10000
            | _ \<Rightarrow> 10000))"

definition new_PompTimeoutError :: "page \<Rightarrow> string \<Rightarrow> int option \<Rightarrow> error" where
  "new_PompTimeoutError pg selector timeout = PompTimeoutError selector (error_timeout pg timeout)"

text \<open>The default of the parameter \<open>interval = 500\<close>, taken when the argument is undefined.\<close>

definition waitFor_interval :: "int option \<Rightarrow> int" where
  "waitFor_interval interval = (case interval of None \<Rightarrow> 500 | Some i \<Rightarrow> i)"

subsection \<open>String.prototype.split with a one-character separator\<close>

text \<open>
  \<open>value.split(" ")\<close> cuts at every occurrence of the separator: two separators in a row
  give an empty piece between them, and the empty string gives one empty piece.
\<close>

fun split_from :: "char \<Rightarrow> string \<Rightarrow> string \<Rightarrow> string list" where
  "split_from c piece [] = [rev piece]"
| "split_from c piece (x # xs) =
     (if x = c then rev piece # split_from c [] xs else split_from c (x # piece) xs)"

definition js_split :: "string \<Rightarrow> char \<Rightarrow> string list" where
  "js_split s c = split_from c [] s"

subsection \<open>Timers\<close>

text \<open>
  \<open>setInterval\<close> and \<open>setTimeout\<close> of the runtime take a delay below 1 or above
  2147483647 as 1. Timers are ideal otherwise: a timer of delay \<open>d\<close> set at time 0 is due
  at \<open>d\<close>, an interval timer at every multiple of \<open>d\<close>.
\<close>

definition timer_delay :: "int \<Rightarrow> nat" where
  "timer_delay d = (if d < 1 \<or> 2147483647 < d then 1 else nat d)"

subsection \<open>The poller\<close>

text \<open>
  The state of one call of \<open>waitFor\<close>, in time relative to the call: whether \<open>trier\<close>
  (the interval timer) and \<open>quitter\<close> (the deadline timer) are still scheduled, the state
  of the returned promise (\<open>None\<close> while pending, else the time it resolved and its value,
  \<open>None\<close> for \<open>null\<close>), the calls of the predicate whose \<open>await\<close> has not ended (the time
  the result arrives, and the result: \<open>None\<close> when it is falsy or a rejection), and the
  log of what happened, in order.
\<close>

datatype 'a poll_event = Invoked nat | Resolved nat "'a option"

record 'a poller =
  trier :: bool
  quitter :: bool
  outcome :: "(nat \<times> 'a option) option"
  inflight :: "(nat \<times> 'a option) list"
  events :: "'a poll_event list"

text \<open>\<open>resolve(v)\<close> settles a pending promise and does nothing to a settled one.\<close>

definition resolve :: "nat \<Rightarrow> 'a option \<Rightarrow> 'a poller \<Rightarrow> 'a poller" where
  "resolve t v p =
     (case outcome p of
        None \<Rightarrow> p\<lparr>outcome := Some (t, v), events := events p @ [Resolved t v]\<rparr>
      | Some _ \<Rightarrow> p)"

definition clearInterval :: "'a poller \<Rightarrow> 'a poller" where
  "clearInterval p = p\<lparr>trier := False\<rparr>"

definition clearTimeout :: "'a poller \<Rightarrow> 'a poller" where
  "clearTimeout p = p\<lparr>quitter := False\<rparr>"

text \<open>
  \<open>success\<close> has two halves. The interval timer calls it: it calls the predicate, at
  time \<open>t\<close>, and awaits. When the result arrives, the rest runs:
  \<open>if (result) { clearInterval(trier); clearTimeout(quitter); resolve(result); }\<close>.
  A rejection of the predicate ends \<open>success\<close> with nothing done, as a falsy result does.
  A predicate that answers at once (in no time) lets \<open>success\<close> continue before anything
  else runs; any other answer waits for its arrival.
\<close>

definition success_rest :: "nat \<Rightarrow> 'a option \<Rightarrow> 'a poller \<Rightarrow> 'a poller" where
  "success_rest t result p =
     (case result of
        None \<Rightarrow> p
      | Some v \<Rightarrow> resolve t (Some v) (clearTimeout (clearInterval p)))"

definition success_call :: "(nat \<Rightarrow> nat \<times> 'a option) \<Rightarrow> nat \<Rightarrow> 'a poller \<Rightarrow> 'a poller" where
  "success_call predicate t p =
     (case predicate t of
        (d, result) \<Rightarrow>
          if d = 0 then success_rest t result (p\<lparr>events := events p @ [Invoked t]\<rparr>)
          else p\<lparr>inflight := inflight p @ [(t + d, result)], events := events p @ [Invoked t]\<rparr>)"

text \<open>The awaits that end at \<open>t\<close> continue, in the order of their calls.\<close>

definition settle :: "nat \<Rightarrow> 'a poller \<Rightarrow> 'a poller" where
  "settle t p =
     foldl (\<lambda>q a. success_rest t (snd a) q)
       (p\<lparr>inflight := filter (\<lambda>a. fst a \<noteq> t) (inflight p)\<rparr>)
       (filter (\<lambda>a. fst a = t) (inflight p))"

text \<open>
  The interval timer is due at every multiple of the interval while it is scheduled. The
  deadline timer is due once, at the timeout: \<open>clearInterval(trier); resolve(null)\<close>.
\<close>

definition on_interval :: "(nat \<Rightarrow> nat \<times> 'a option) \<Rightarrow> nat \<Rightarrow> nat \<Rightarrow> 'a poller \<Rightarrow> 'a poller" where
  "on_interval predicate I t p =
     (if trier p \<and> t mod I = 0 then success_call predicate t p else p)"

definition on_deadline :: "nat \<Rightarrow> nat \<Rightarrow> 'a poller \<Rightarrow> 'a poller" where
  "on_deadline T t p =
     (if quitter p \<and> t = T then resolve t None (clearInterval (p\<lparr>quitter := False\<rparr>)) else p)"

text \<open>
  One millisecond of the poller: what is due at \<open>t\<close> is handled in the order the runtime
  takes at \<open>t\<close>.
\<close>

fun handle_due :: "nat \<Rightarrow> nat \<Rightarrow> (nat \<Rightarrow> nat \<times> 'a option) \<Rightarrow> nat \<Rightarrow> 'a poller \<Rightarrow> due \<Rightarrow> 'a poller" where
  "handle_due T I predicate t p Answers = settle t p"
| "handle_due T I predicate t p IntervalTimer = on_interval predicate I t p"
| "handle_due T I predicate t p DeadlineTimer = on_deadline T t p"

definition tick :: "nat \<Rightarrow> nat \<Rightarrow> (nat \<Rightarrow> tie) \<Rightarrow> (nat \<Rightarrow> nat \<times> 'a option) \<Rightarrow> 'a poller \<Rightarrow> nat \<Rightarrow> 'a poller" where
  "tick T I tie_at predicate p t = foldl (handle_due T I predicate t) p (in_order (tie_at t))"

definition poller_start :: "'a poller" where
  "poller_start = \<lparr>trier = True, quitter = True, outcome = None, inflight = [], events = []\<rparr>"

text \<open>The poller after the first \<open>n\<close> milliseconds.\<close>

definition run_poller :: "nat \<Rightarrow> nat \<Rightarrow> (nat \<Rightarrow> tie) \<Rightarrow> (nat \<Rightarrow> nat \<times> 'a option) \<Rightarrow> nat \<Rightarrow> 'a poller" where
  "run_poller T I tie_at predicate n = foldl (tick T I tie_at predicate) poller_start [1..<Suc n]"

text \<open>
  \<open>waitFor\<close>: the effective timeout, then the timers. The value is the poller when the
  deadline has passed; \<open>outcome\<close> of it is what the promise resolved with, and when.
\<close>

definition waitFor :: "page \<Rightarrow> (nat \<Rightarrow> nat \<times> 'a option) \<Rightarrow> int option \<Rightarrow> int option \<Rightarrow> error + 'a poller" where
  "waitFor pg predicate timeout interval =
     (case waitFor_timeout pg timeout of
        Inl e \<Rightarrow> Inl e
      | Inr T \<Rightarrow>
          Inr (run_poller (timer_delay T) (timer_delay (waitFor_interval interval))
                 (ties pg) predicate (timer_delay T)))"

fun invocations :: "'a poll_event list \<Rightarrow> nat list" where
  "invocations [] = []"
| "invocations (Invoked t # es) = t # invocations es"
| "invocations (Resolved t v # es) = invocations es"

section \<open>Asynchronous code with effects\<close>

text \<open>
  What an \<open>async\<close> function does besides returning: time passes, the driver is called,
  objects are allocated. \<open>clock\<close> is the time, \<open>calls\<close> the driver calls made so far
  (each with the time it was made), \<open>allocated\<close> the number of objects made by \<open>new\<close>,
  which is also the identity of the next one. An awaited computation returns its value
  or the error it rejects with, and the world after it.
\<close>

datatype call =
    XPathCall root string nat
  | CssCall root string nat
  | WaitSelectorCall root string "int option" nat
  | PropertyCall handle string nat

record world =
  clock :: nat
  calls :: "call list"
  allocated :: nat

type_synonym 'a io = "world \<Rightarrow> (error + 'a) \<times> world"

definition ret :: "'a \<Rightarrow> 'a io" where
  "ret x w = (Inr x, w)"

definition throw :: "error \<Rightarrow> 'a io" where
  "throw e w = (Inl e, w)"

text \<open>\<open>const x = await m; ...\<close>: a rejection of \<open>m\<close> ends the function with that error.\<close>

definition bnd :: "'a io \<Rightarrow> ('a \<Rightarrow> 'b io) \<Rightarrow> 'b io" where
  "bnd m f w = (case m w of (Inl e, w') \<Rightarrow> (Inl e, w') | (Inr x, w') \<Rightarrow> f x w')"

text \<open>\<open>try { m } catch { h }\<close> and \<open>m.catch(h)\<close>.\<close>

definition catch :: "'a io \<Rightarrow> (error \<Rightarrow> 'a io) \<Rightarrow> 'a io" where
  "catch m h w = (case m w of (Inl e, w') \<Rightarrow> h e w' | (Inr x, w') \<Rightarrow> (Inr x, w'))"

text \<open>An object (a handle, an array, a promise) is truthy, whatever it holds.\<close>

definition truthy_object :: "'a \<Rightarrow> bool" where
  "truthy_object x = True"

subsection \<open>Driver calls\<close>

definition call_xpath :: "page \<Rightarrow> root \<Rightarrow> string \<Rightarrow> handle list io" where
  "call_xpath pg r selector w =
     (case xpath_query pg r selector (clock w) of
        (d, res) \<Rightarrow> (res, w\<lparr>clock := clock w + d, calls := calls w @ [XPathCall r selector (clock w)]\<rparr>))"

definition call_css :: "page \<Rightarrow> root \<Rightarrow> string \<Rightarrow> handle list io" where
  "call_css pg r selector w =
     (case css_query pg r selector (clock w) of
        (d, res) \<Rightarrow> (res, w\<lparr>clock := clock w + d, calls := calls w @ [CssCall r selector (clock w)]\<rparr>))"

definition call_waitForSelector :: "page \<Rightarrow> root \<Rightarrow> string \<Rightarrow> int option \<Rightarrow> handle io" where
  "call_waitForSelector pg r selector timeout w =
     (case wait_selector pg r selector timeout (clock w) of
        (d, res) \<Rightarrow>
          (res, w\<lparr>clock := clock w + d,
                   calls := calls w @ [WaitSelectorCall r selector timeout (clock w)]\<rparr>))"

definition call_getProperty :: "page \<Rightarrow> handle \<Rightarrow> string \<Rightarrow> string io" where
  "call_getProperty pg h name w =
     (case read_property pg h name (clock w) of
        (d, res) \<Rightarrow> (res, w\<lparr>clock := clock w + d, calls := calls w @ [PropertyCall h name (clock w)]\<rparr>))"

subsection \<open>Awaiting waitFor with an xpath predicate\<close>

text \<open>
  The predicate every caller of \<open>waitFor\<close> passes:
  \<open>async () => { const els = await root.$x(selector); return els[0]; }\<close>.
  \<open>els[0]\<close> of an empty array is \<open>undefined\<close>; a rejection of \<open>$x\<close> rejects the predicate.
\<close>

definition first_match :: "nat \<times> (error + handle list) \<Rightarrow> nat \<times> handle option" where
  "first_match a =
     (case a of
        (d, Inl e) \<Rightarrow> (d, None)
      | (d, Inr els) \<Rightarrow> (d, case els of [] \<Rightarrow> None | h # _ \<Rightarrow> Some h))"

text \<open>
  \<open>await waitFor(page, predicate, timeout)\<close> where the predicate queries \<open>root\<close>: the
  caller continues when the promise resolves; the calls of the predicate are driver calls.
  The interval is never passed.
\<close>

definition await_waitFor :: "page \<Rightarrow> root \<Rightarrow> string \<Rightarrow> int option \<Rightarrow> handle option io" where
  "await_waitFor pg r selector timeout w =
     (case waitFor pg (\<lambda>t. first_match (xpath_query pg r selector (clock w + t))) timeout None of
        Inl e \<Rightarrow> (Inl e, w)
      | Inr p \<Rightarrow>
          (case outcome p of
             None \<Rightarrow> (Inl Unsettled, w)
           | Some (t, v) \<Rightarrow>
               (Inr v, w\<lparr>clock := clock w + t,
                          calls := calls w @ map (\<lambda>c. XPathCall r selector (clock w + c))
                                                (invocations (events p))\<rparr>)))"

section \<open>element.pomp.ts: PompElement\<close>

text \<open>
  An object made by \<open>new PompElement(page, fetch)\<close> or \<open>new Type(page, fetch)\<close>: its
  identity, the name of the class \<open>Type\<close> when one was supplied (a subclass takes the
  two arguments of the base constructor, as the parameter's type says), and the two public
  fields.
\<close>

record elem =
  ident :: nat
  subtype :: "string option"
  el_page :: page
  fetch :: "int option \<Rightarrow> handle io"

text \<open>\<open>Type ? new Type(page, fetcher) : new PompElement(page, fetcher)\<close>\<close>

definition new_PompElement :: "string option \<Rightarrow> page \<Rightarrow> (int option \<Rightarrow> handle io) \<Rightarrow> elem io" where
  "new_PompElement Type pg fetcher w =
     (Inr \<lparr>ident = allocated w, subtype = Type, el_page = pg, fetch = fetcher\<rparr>,
      w\<lparr>allocated := Suc (allocated w)\<rparr>)"

text \<open>\<open>exists(timeout)\<close>: \<open>try { return !!(await this.fetch(timeout)); } catch { return false; }\<close>\<close>

definition exists :: "elem \<Rightarrow> int \<Rightarrow> bool io" where
  "exists this timeout =
     catch (bnd (fetch this (Some timeout)) (\<lambda>h. ret (truthy_object h))) (\<lambda>e. ret False)"

text \<open>The getter \<open>classes\<close>: fetch, read \<open>className\<close>, \<open>value.split(" ")\<close>.\<close>

definition classes :: "elem \<Rightarrow> string list io" where
  "classes this =
     bnd (fetch this None) (\<lambda>el.
     bnd (call_getProperty (el_page this) el ''className'') (\<lambda>v.
     ret (js_split v CHR '' '')))"

subsection \<open>The four child locators\<close>

text \<open>
  The fetchers that \<open>$x\<close>, \<open>$$x\<close>, \<open>$\<close> and \<open>$$\<close> build, in that order. Each starts with
  \<open>const self = await this.fetch()\<close>, the parent's fetch called with no timeout.
\<close>

definition PompElement_x_fetcher :: "elem \<Rightarrow> string \<Rightarrow> int option \<Rightarrow> handle io" where
  "PompElement_x_fetcher this selector timeout =
     bnd (fetch this None) (\<lambda>self.
     bnd (await_waitFor (el_page this) (Node self) selector timeout) (\<lambda>el.
     case el of
       None \<Rightarrow> throw (new_PompTimeoutError (el_page this) selector timeout)
     | Some h \<Rightarrow> ret h))"

text \<open>
  In \<open>$$x\<close> the second query is not awaited: \<open>el\<close> is the promise of \<open>self.$x(selector)\<close>,
  an object, so \<open>!el\<close> is false; returning the promise from the \<open>async\<close> fetcher makes the
  fetcher's result the query's.
\<close>

definition PompElement_xx_fetcher :: "elem \<Rightarrow> string \<Rightarrow> int option \<Rightarrow> handle list io" where
  "PompElement_xx_fetcher this selector timeout =
     bnd (fetch this None) (\<lambda>self.
     bnd (await_waitFor (el_page this) (Node self) selector timeout) (\<lambda>_.
     let el = call_xpath (el_page this) (Node self) selector in
     if \<not> truthy_object el then throw (new_PompTimeoutError (el_page this) selector timeout)
     else el))"

definition PompElement_css_fetcher :: "elem \<Rightarrow> string \<Rightarrow> int option \<Rightarrow> handle io" where
  "PompElement_css_fetcher this selector timeout =
     bnd (fetch this None) (\<lambda>self.
     call_waitForSelector (el_page this) (Node self) selector timeout)"

definition PompElement_css_all_fetcher :: "elem \<Rightarrow> string \<Rightarrow> int option \<Rightarrow> handle list io" where
  "PompElement_css_all_fetcher this selector timeout =
     bnd (fetch this None) (\<lambda>self.
     bnd (catch (bnd (call_waitForSelector (el_page this) (Node self) selector timeout) (\<lambda>_. ret ()))
                (\<lambda>e. ret ())) (\<lambda>_.
     bnd (call_css (el_page this) (Node self) selector) (\<lambda>els.
     ret els)))"

section \<open>element.pomp.ts: PompElementCollection\<close>

record coll =
  co_ident :: nat
  co_page :: page
  co_fetch :: "int option \<Rightarrow> elem list io"

text \<open>
  \<open>collection.map((el) => { const fetcher = () => Promise.resolve(el); return new ... })\<close>:
  one object per handle, made in the order of the array; the fetcher of each ignores its
  argument and resolves with the handle.
\<close>

fun map_new :: "string option \<Rightarrow> page \<Rightarrow> handle list \<Rightarrow> elem list io" where
  "map_new Type pg [] = ret []"
| "map_new Type pg (el # rest) =
     bnd (new_PompElement Type pg (\<lambda>timeout. ret el)) (\<lambda>x.
     bnd (map_new Type pg rest) (\<lambda>xs.
     ret (x # xs)))"

text \<open>The \<open>fetch\<close> the constructor assigns.\<close>

definition PompElementCollection_fetch ::
  "page \<Rightarrow> (int option \<Rightarrow> handle list io) \<Rightarrow> string option \<Rightarrow> int option \<Rightarrow> elem list io" where
  "PompElementCollection_fetch pg collectionFetcher Type timeout =
     bnd (collectionFetcher timeout) (\<lambda>collection. map_new Type pg collection)"

definition new_PompElementCollection ::
  "page \<Rightarrow> (int option \<Rightarrow> handle list io) \<Rightarrow> string option \<Rightarrow> coll io" where
  "new_PompElementCollection pg collectionFetcher Type w =
     (Inr \<lparr>co_ident = allocated w, co_page = pg,
           co_fetch = PompElementCollection_fetch pg collectionFetcher Type\<rparr>,
      w\<lparr>allocated := Suc (allocated w)\<rparr>)"

text \<open>
  \<open>find\<close>: \<open>for (const el of els) { const found = await predicate(el); if (found) return el; }
  return undefined;\<close> The predicate is the caller's code: it may wait, call the driver
  and reject.
\<close>

fun find_loop :: "(elem \<Rightarrow> bool io) \<Rightarrow> elem list \<Rightarrow> elem option io" where
  "find_loop predicate [] = ret None"
| "find_loop predicate (el # els) =
     bnd (predicate el) (\<lambda>found.
     if found then ret (Some el) else find_loop predicate els)"

definition find_coll :: "coll \<Rightarrow> (elem \<Rightarrow> bool io) \<Rightarrow> elem option io" where
  "find_coll this predicate = bnd (co_fetch this None) (\<lambda>els. find_loop predicate els)"

subsection \<open>Calls that are pending at the same time\<close>

text \<open>
  \<open>filter\<close> does not await one call of the predicate before it makes the next, so the
  calls cannot be modelled as computations that run whole, one after the other. A promise
  is settled, with an error or a value, or pending. Behind a pending promise is code that
  will run again (when an answer arrives, or as a microtask) up to its next \<open>await\<close>:
  run in the world \<open>w\<close>, it leaves the world \<open>eff w\<close> and the promise \<open>nxt w\<close>. Code runs
  to its next \<open>await\<close> without interruption, so such a step is atomic.
\<close>

datatype 'a promise = Settled "error + 'a" | Pending "world \<Rightarrow> 'a promise" "world \<Rightarrow> world"

fun run_next :: "'a promise \<Rightarrow> world \<Rightarrow> 'a promise \<times> world" where
  "run_next (Settled r) w = (Settled r, w)"
| "run_next (Pending nxt eff) w = (nxt w, eff w)"

text \<open>
  Calling an async function runs it up to its first \<open>await\<close>, which may change the world,
  and returns its promise.
\<close>

type_synonym 'a async = "world \<Rightarrow> 'a promise \<times> world"

text \<open>\<open>xs.map(f)\<close> for an async \<open>f\<close>: the calls are made in the order of the array.\<close>

fun call_each :: "('b \<Rightarrow> 'a async) \<Rightarrow> 'b list \<Rightarrow> world \<Rightarrow> 'a promise list \<times> world" where
  "call_each f [] w = ([], w)"
| "call_each f (x # xs) w =
     (case f x w of
        (p, w') \<Rightarrow> (case call_each f xs w' of (ps, w'') \<Rightarrow> (p # ps, w'')))"

text \<open>
  \<open>Promise.all\<close> is rejected as soon as one of the promises is (the first in the array if
  several are when it looks), and fulfilled, with the values in the order of the array,
  when all of them are.
\<close>

fun first_rejection :: "'a promise list \<Rightarrow> error option" where
  "first_rejection [] = None"
| "first_rejection (Settled (Inl e) # ps) = Some e"
| "first_rejection (p # ps) = first_rejection ps"

fun all_fulfilled :: "'a promise list \<Rightarrow> 'a list option" where
  "all_fulfilled [] = Some []"
| "all_fulfilled (Settled (Inr v) # ps) = map_option ((#) v) (all_fulfilled ps)"
| "all_fulfilled (p # ps) = None"

definition settled_all :: "'a promise list \<Rightarrow> (error + 'a list) option" where
  "settled_all ps =
     (case first_rejection ps of
        Some e \<Rightarrow> Some (Inl e)
      | None \<Rightarrow> map_option Inr (all_fulfilled ps))"

text \<open>
  \<open>await Promise.all(ps)\<close>. Which pending promise runs next is decided by the timing; the
  model takes it as the list \<open>sched\<close> of the indices of the promises, in the order in which
  they take their steps. The caller continues as soon as \<open>Promise.all\<close> is settled, and
  not at all if the steps run out before.
\<close>

fun promise_all :: "'a promise list \<Rightarrow> nat list \<Rightarrow> 'a list io" where
  "promise_all ps [] w =
     (case settled_all ps of Some r \<Rightarrow> (r, w) | None \<Rightarrow> (Inl Unsettled, w))"
| "promise_all ps (i # sched) w =
     (case settled_all ps of
        Some r \<Rightarrow> (r, w)
      | None \<Rightarrow>
          if i < length ps
          then (case run_next (ps ! i) w of (q, w') \<Rightarrow> promise_all (ps[i := q]) sched w')
          else promise_all ps sched w)"

text \<open>
  \<open>async (el) => ({ el, isValid: await predicate(el) })\<close>: the call calls the predicate,
  and its promise settles as the predicate's does, with the pair.
\<close>

definition validation :: "(elem \<Rightarrow> bool async) \<Rightarrow> elem \<Rightarrow> (elem \<times> bool) async" where
  "validation predicate el w =
     (case predicate el w of
        (p, w') \<Rightarrow> (map_promise (\<lambda>isValid. (el, isValid)) p, w'))"

text \<open>
  \<open>filter\<close>: \<open>Promise.all(els.map(async (el) => ({ el, isValid: await predicate(el) })))\<close>,
  then \<open>validations.filter(({ isValid }) => isValid).map(({ el }) => el)\<close>.
\<close>

definition filter_coll :: "coll \<Rightarrow> (elem \<Rightarrow> bool async) \<Rightarrow> nat list \<Rightarrow> elem list io" where
  "filter_coll this predicate sched =
     bnd (co_fetch this None) (\<lambda>els w1.
       case call_each (validation predicate) els w1 of
         (ps, w2) \<Rightarrow>
           bnd (promise_all ps sched) (\<lambda>validations.
           ret (map fst (filter snd validations))) w2)"

section \<open>element.pomp.ts: the factories of PompElement\<close>

text \<open>\<open>$x\<close>, \<open>$$x\<close>, \<open>$\<close> and \<open>$$\<close> of an element.\<close>

definition PompElement_x :: "elem \<Rightarrow> string \<Rightarrow> string option \<Rightarrow> elem io" where
  "PompElement_x this selector Type =
     new_PompElement Type (el_page this) (PompElement_x_fetcher this selector)"

definition PompElement_xx :: "elem \<Rightarrow> string \<Rightarrow> string option \<Rightarrow> coll io" where
  "PompElement_xx this selector Type =
     new_PompElementCollection (el_page this) (PompElement_xx_fetcher this selector) Type"

definition PompElement_css :: "elem \<Rightarrow> string \<Rightarrow> string option \<Rightarrow> elem io" where
  "PompElement_css this selector Type =
     new_PompElement Type (el_page this) (PompElement_css_fetcher this selector)"

definition PompElement_css_all :: "elem \<Rightarrow> string \<Rightarrow> string option \<Rightarrow> coll io" where
  "PompElement_css_all this selector Type =
     new_PompElementCollection (el_page this) (PompElement_css_all_fetcher this selector) Type"

section \<open>PompPage\<close>

text \<open>
  A \<open>PompPage\<close> has one field, the page, and stands for it here. Its four locators are
  those of an element without the parent's fetch: the queries run on the document.
\<close>

definition PompPage_x_fetcher :: "page \<Rightarrow> string \<Rightarrow> int option \<Rightarrow> handle io" where
  "PompPage_x_fetcher pg selector timeout =
     bnd (await_waitFor pg Document selector timeout) (\<lambda>el.
     case el of
       None \<Rightarrow> throw (new_PompTimeoutError pg selector timeout)
     | Some h \<Rightarrow> ret h)"

definition PompPage_xx_fetcher :: "page \<Rightarrow> string \<Rightarrow> int option \<Rightarrow> handle list io" where
  "PompPage_xx_fetcher pg selector timeout =
     bnd (await_waitFor pg Document selector timeout) (\<lambda>_.
     let el = call_xpath pg Document selector in
     if \<not> truthy_object el then throw (new_PompTimeoutError pg selector timeout)
     else el)"

definition PompPage_css_fetcher :: "page \<Rightarrow> string \<Rightarrow> int option \<Rightarrow> handle io" where
  "PompPage_css_fetcher pg selector timeout = call_waitForSelector pg Document selector timeout"

definition PompPage_css_all_fetcher :: "page \<Rightarrow> string \<Rightarrow> int option \<Rightarrow> handle list io" where
  "PompPage_css_all_fetcher pg selector timeout =
     bnd (catch (bnd (call_waitForSelector pg Document selector timeout) (\<lambda>_. ret ()))
                (\<lambda>e. ret ())) (\<lambda>_.
     bnd (call_css pg Document selector) (\<lambda>els.
     ret els))"

definition PompPage_x :: "page \<Rightarrow> string \<Rightarrow> string option \<Rightarrow> elem io" where
  "PompPage_x pg selector Type = new_PompElement Type pg (PompPage_x_fetcher pg selector)"

definition PompPage_xx :: "page \<Rightarrow> string \<Rightarrow> string option \<Rightarrow> coll io" where
  "PompPage_xx pg selector Type =
     new_PompElementCollection pg (PompPage_xx_fetcher pg selector) Type"

definition PompPage_css :: "page \<Rightarrow> string \<Rightarrow> string option \<Rightarrow> elem io" where
  "PompPage_css pg selector Type = new_PompElement Type pg (PompPage_css_fetcher pg selector)"

definition PompPage_css_all :: "page \<Rightarrow> string \<Rightarrow> string option \<Rightarrow> coll io" where
  "PompPage_css_all pg selector Type =
     new_PompElementCollection pg (PompPage_css_all_fetcher pg selector) Type"

section \<open>An invariant of the poller\<close>

text \<open>
  What holds of the poller between two callbacks, at time \<open>t\<close>, when the deadline timer
  has been looked at up to time \<open>m\<close>: while the promise is pending the deadline timer is
  scheduled and still to come, and nothing but calls of the predicate has happened; once
  it has resolved, both timers are off and the resolution is the last event. Every result
  in flight or resolved with is a result of a call that was made.
\<close>

definition pinv :: "(nat \<Rightarrow> nat \<times> 'a option) \<Rightarrow> nat \<Rightarrow> nat \<Rightarrow> nat \<Rightarrow> 'a poller \<Rightarrow> bool" where
  "pinv predicate T m t p =
     ((outcome p = None \<longrightarrow> quitter p \<and> m < T \<and> events p = map Invoked (invocations (events p)))
      \<and> (\<forall>c\<in>set (invocations (events p)). c \<le> t)
      \<and> (\<forall>a\<in>set (inflight p). \<exists>c\<in>set (invocations (events p)). snd a = snd (predicate c))
      \<and> (\<forall>u v. outcome p = Some (u, v) \<longrightarrow>
            \<not> trier p \<and> \<not> quitter p \<and> u \<le> t \<and> u \<le> T
            \<and> events p = map Invoked (invocations (events p)) @ [Resolved u v]
            \<and> (\<forall>c\<in>set (invocations (events p)). c \<le> u)
            \<and> (v = None \<longrightarrow> u = T)
            \<and> (\<forall>x. v = Some x \<longrightarrow> (\<exists>c\<in>set (invocations (events p)). snd (predicate c) = Some x))))"

section \<open>Driver calls are only ever appended\<close>

text \<open>A computation that leaves the driver calls made before it as they are.\<close>

definition appends :: "'a io \<Rightarrow> bool" where
  "appends m = (\<forall>w. \<exists>cs. calls (snd (m w)) = calls w @ cs)"

section \<open>Functions to state the claims with\<close>

text \<open>
  The elements a fetch of a collection is expected to make from the handles \<open>hs\<close> when
  \<open>n\<close> objects exist: one per handle, in order, with the identities \<open>n\<close>, \<open>n + 1\<close>, ...,
  each with a fetch that resolves with its handle and does nothing else.
\<close>

fun items_from :: "string option \<Rightarrow> page \<Rightarrow> nat \<Rightarrow> handle list \<Rightarrow> elem list" where
  "items_from Type pg n [] = []"
| "items_from Type pg n (h # hs) =
     \<lparr>ident = n, subtype = Type, el_page = pg, fetch = (\<lambda>timeout. ret h)\<rparr> # items_from Type pg (Suc n) hs"

text \<open>
  Calling the predicate on the items of \<open>els\<close>, one after the other, gives false every
  time: the value is the world after the last call, and \<open>None\<close> if a call gave true or
  rejected.
\<close>

fun all_falsy :: "(elem \<Rightarrow> bool io) \<Rightarrow> elem list \<Rightarrow> world \<Rightarrow> world option" where
  "all_falsy predicate [] w = Some w"
| "all_falsy predicate (el # els) w =
     (case predicate el w of
        (Inr False, w') \<Rightarrow> all_falsy predicate els w'
      | _ \<Rightarrow> None)"

text \<open>
  The promises of the calls of \<open>validation\<close> on the items \<open>xs\<close>, given the promises \<open>ps\<close>
  of the predicate's calls: each settles as the predicate's does, paired with its item.
\<close>

definition paired :: "'b list \<Rightarrow> 'a promise list \<Rightarrow> ('b \<times> 'a) promise list" where
  "paired xs ps = map (\<lambda>(x, p). map_promise (Pair x) p) (zip xs ps)"

text \<open>
  Whatever the worlds it runs in, the promise is fulfilled with \<open>v\<close> after at most \<open>k\<close>
  steps.
\<close>

primrec settles_within :: "'a \<Rightarrow> 'a promise \<Rightarrow> nat \<Rightarrow> bool" where
  "settles_within v (Settled r) = (\<lambda>k. r = Inr v)"
| "settles_within v (Pending nxt eff) =
     (\<lambda>k. case k of 0 \<Rightarrow> False | Suc j \<Rightarrow> \<forall>w. settles_within v (nxt w) j)"

section \<open>Two pages to run the code on\<close>

text \<open>
  Three things to run the poller on: a runtime that handles the timers before the answers,
  the deadline timer first; a predicate that answers at once and is never truthy; and one
  that answers 7 after \<open>d\<close> milliseconds.
\<close>

definition timers_first :: "nat \<Rightarrow> tie" where
  "timers_first t = DeadlineIntervalAnswers"



text \<open>
  A document in which no selector matches anything, and a document with three list
  items, the handles 1, 2 and 3, whose \<open>className\<close> is empty for the first,
  \<open>item  selected\<close> (two spaces) for the second and \<open>item selected\<close> for the third.
  Both have the driver's default timeout of 30000 and answer a query after 1 ms.
\<close>

definition empty_page :: page where
  "empty_page =
     \<lparr>timeoutSettings = Some (Some 30000), ties = timers_first,
      xpath_query = (\<lambda>r selector t. (1, Inr [])),
      css_query = (\<lambda>r selector t. (1, Inr [])),
      wait_selector = (\<lambda>r selector timeout t.
        (case timeout of None \<Rightarrow> 30000 | Some n \<Rightarrow> nat n, Inl (DriverError ''TimeoutError''))),
      read_property = (\<lambda>h name t. (1, Inl (DriverError ''no such node'')))\<rparr>"

definition list_page :: page where
  "list_page =
     \<lparr>timeoutSettings = Some (Some 30000), ties = timers_first,
      xpath_query = (\<lambda>r selector t.
        (1, if r = Document \<and> selector = ''//li'' then Inr [1, 2, 3] else Inr [])),
      css_query = (\<lambda>r selector t.
        (1, if r = Document \<and> selector = ''li'' then Inr [1, 2, 3] else Inr [])),
      wait_selector = (\<lambda>r selector timeout t.
        if r = Document \<and> selector = ''li'' then (1, Inr 1)
        else (case timeout of None \<Rightarrow> 30000 | Some n \<Rightarrow> nat n, Inl (DriverError ''TimeoutError''))),
      read_property = (\<lambda>h name t.
        (1, if name = ''className''
            then Inr (if h = 2 then ''item  selected'' else if h = 3 then ''item selected'' else [])
            else Inl (DriverError ''no such property'')))\<rparr>"

definition world0 :: world where
  "world0 = \<lparr>clock = 0, calls = [], allocated = 0\<rparr>"

text \<open>An element as \<open>PompElementCollection.fetch\<close> makes them: its fetch resolves with \<open>h\<close>.\<close>

definition pinned :: "page \<Rightarrow> handle \<Rightarrow> elem" where
  "pinned pg h = \<lparr>ident = 0, subtype = None, el_page = pg, fetch = (\<lambda>timeout. ret h)\<rparr>"

text \<open>A locator of the empty page, and locators chained on it.\<close>

definition missing_link :: elem where
  "missing_link =
     \<lparr>ident = 0, subtype = None, el_page = empty_page, fetch = PompPage_x_fetcher empty_page ''//a''\<rparr>"

definition chain_B :: elem where
  "chain_B = \<lparr>ident = 1, subtype = None, el_page = empty_page,
               fetch = PompElement_x_fetcher missing_link ''.//b''\<rparr>"

definition chain_C :: elem where
  "chain_C = \<lparr>ident = 2, subtype = None, el_page = empty_page,
               fetch = PompElement_css_fetcher chain_B ''c''\<rparr>"

definition chain_CC :: coll where
  "chain_CC = \<lparr>co_ident = 2, co_page = empty_page,
                co_fetch = PompElementCollection_fetch empty_page (PompElement_xx_fetcher chain_B ''.//c'') None\<rparr>"

definition first_item_link :: elem where
  "first_item_link = \<lparr>ident = 1, subtype = None, el_page = list_page,
                       fetch = PompElement_css_fetcher (pinned list_page 1) ''a''\<rparr>"

text \<open>
  The collection of the list items of \<open>list_page\<close>, located by xpath from the page, and
  a predicate of the kind \<open>find\<close> and \<open>filter\<close> are given: is \<open>name\<close> among the classes?
\<close>

definition list_items :: coll where
  "list_items = \<lparr>co_ident = 0, co_page = list_page,
                  co_fetch = PompElementCollection_fetch list_page (PompPage_xx_fetcher list_page ''//li'') None\<rparr>"

definition has_class :: "string \<Rightarrow> elem \<Rightarrow> bool io" where
  "has_class name el = bnd (classes el) (\<lambda>cs. ret (name \<in> set cs))"

text \<open>
  The same question as a predicate for \<open>filter\<close>,
  \<open>(el) => el.classes.then((cs) => cs.includes("selected"))\<close>, on an item of a collection.
  The call itself does nothing to the world (the fetch of an item is resolved); the first
  step behind the promise reads the property, the second is the arrival of the answer,
  \<open>d\<close> milliseconds after the read.
\<close>

definition selected_async :: "elem \<Rightarrow> bool async" where
  "selected_async el w =
     (case fetch el None w of
        (Inl e, w') \<Rightarrow> (Settled (Inl e), w')
      | (Inr h, w') \<Rightarrow>
          (Pending
             (\<lambda>v. case read_property (el_page el) h ''className'' (clock v) of
                     (d, r) \<Rightarrow>
                       Pending
                         (\<lambda>u. Settled (case r of
                                          Inl e \<Rightarrow> Inl e
                                        | Inr s \<Rightarrow> Inr (''selected'' \<in> set (js_split s CHR '' ''))))
                         (\<lambda>u. u\<lparr>clock := max (clock u) (clock v + d)\<rparr>))
             (\<lambda>v. v\<lparr>calls := calls v @ [PropertyCall h ''className'' (clock v)]\<rparr>),
           w'))"

section \<open>Effective timeouts\<close>

text \<open>
  C2. Without a timeout argument the effective timeout is the session's default, and
  10000 when that default is unavailable, rather than a failure. The code does not do
  this for a page object without timeout settings: \<open>waitFor\<close> reads
  \<open>_timeoutSettings.timeout()\<close> with no optional chaining and throws, where the
  constructor of \<open>PompTimeoutError\<close>, with the optional chain, gets 10000.
\<close>

theorem waitFor_throws_without_timeout_settings:
  "waitFor_timeout (pg\<lparr>timeoutSettings := None\<rparr>) None = Inl TypeError
   \<and> waitFor (pg\<lparr>timeoutSettings := None\<rparr>) predicate None interval = Inl TypeError
   \<and> waitFor_timeout (pg\<lparr>timeoutSettings := Some None\<rparr>) None = Inl TypeError
   \<and> error_timeout (pg\<lparr>timeoutSettings := None\<rparr>) None = 10000
   \<and> waitFor_timeout (pg\<lparr>timeoutSettings := Some (Some d)\<rparr>) None = Inr (if d \<noteq> 0 then d else 10000)
   \<and> waitFor_interval None = 500"
  by (simp add: waitFor_timeout_def waitFor_def error_timeout_def truthy_number_def
      waitFor_interval_def)

text \<open>
  C10. A timeout of 0 passed to \<open>waitFor\<close> is not honoured: the call does what it does
  with no timeout passed, so with timeout settings whose default is \<open>d\<close> the effective
  timeout is \<open>d\<close>, or 10000 when \<open>d\<close> is 0 too.
\<close>

theorem waitFor_timeout_zero_is_default:
  "waitFor_timeout pg (Some 0) = waitFor_timeout pg None
   \<and> waitFor pg predicate (Some 0) interval = waitFor pg predicate None interval
   \<and> waitFor_timeout (pg\<lparr>timeoutSettings := Some (Some d)\<rparr>) (Some 0)
       = Inr (if d \<noteq> 0 then d else 10000)"
  by (simp add: waitFor_timeout_def waitFor_def)

section \<open>The poller resolves once, by the deadline\<close>

lemma invocations_append: "invocations (xs @ ys) = invocations xs @ invocations ys"
  by (induction xs rule: invocations.induct) auto

lemma pinv_success_rest:
  assumes "pinv predicate T m t p" "t \<le> Suc m"
    and "\<exists>c\<in>set (invocations (events p)). r = snd (predicate c)"
  shows "pinv predicate T m t (success_rest t r p)"
  using assms unfolding pinv_def success_rest_def resolve_def clearInterval_def clearTimeout_def
  by (auto simp: invocations_append split: option.splits)

lemma success_rest_invocations:
  "invocations (events (success_rest t r p)) = invocations (events p)"
  by (auto simp: success_rest_def resolve_def clearInterval_def clearTimeout_def invocations_append split: option.splits)

lemma pinv_fold_rest:
  assumes "pinv predicate T m t p" "t \<le> Suc m"
    and "\<forall>a\<in>set as. \<exists>c\<in>set (invocations (events p)). snd a = snd (predicate c)"
  shows "pinv predicate T m t (foldl (\<lambda>q a. success_rest t (snd a) q) p as)"
  using assms
proof (induction as arbitrary: p)
  case Nil
  then show ?case by simp
next
  case (Cons a as)
  have "pinv predicate T m t (success_rest t (snd a) p)"
    using Cons.prems by (intro pinv_success_rest) auto
  moreover have "\<forall>b\<in>set as. \<exists>c\<in>set (invocations (events (success_rest t (snd a) p))). snd b = snd (predicate c)"
    using Cons.prems(3) by (simp add: success_rest_invocations)
  ultimately show ?case using Cons.IH Cons.prems(2) by simp
qed

lemma pinv_settle:
  assumes "pinv predicate T m t p" "t \<le> Suc m"
  shows "pinv predicate T m t (settle t p)"
proof -
  let ?p = "p\<lparr>inflight := filter (\<lambda>a. fst a \<noteq> t) (inflight p)\<rparr>"
  have 1: "pinv predicate T m t ?p"
    using assms(1) unfolding pinv_def by auto
  have 2: "\<forall>a\<in>set (filter (\<lambda>a. fst a = t) (inflight p)). \<exists>c\<in>set (invocations (events ?p)). snd a = snd (predicate c)"
    using assms(1) unfolding pinv_def by auto
  show ?thesis unfolding settle_def by (rule pinv_fold_rest[OF 1 assms(2) 2])
qed

lemma pinv_success_call:
  assumes "pinv predicate T m t p" "trier p" "t \<le> Suc m"
  shows "pinv predicate T m t (success_call predicate t p)"
proof -
  obtain d r where pr: "predicate t = (d, r)" by (cases "predicate t")
  show ?thesis
  proof (cases "d = 0")
    case True
    let ?p = "p\<lparr>events := events p @ [Invoked t]\<rparr>"
    have 1: "pinv predicate T m t ?p"
      using assms(1,2) unfolding pinv_def by (auto simp: invocations_append)
    have 2: "\<exists>c\<in>set (invocations (events ?p)). r = snd (predicate c)"
      using pr by (auto simp: invocations_append)
    have "pinv predicate T m t (success_rest t r ?p)"
      using 1 assms(3) 2 by (rule pinv_success_rest)
    then show ?thesis by (simp add: success_call_def pr True)
  next
    case False
    then show ?thesis
      using assms(1,2) pr unfolding pinv_def success_call_def
      by (auto simp: invocations_append)
  qed
qed

lemma pinv_on_interval:
  assumes "pinv predicate T m t p" "t \<le> Suc m"
  shows "pinv predicate T m t (on_interval predicate I t p)"
  using assms by (simp add: on_interval_def pinv_success_call)

lemma pinv_on_deadline:
  assumes "pinv predicate T m t p" "t \<le> Suc m"
  shows "pinv predicate T t t (on_deadline T t p)"
  using assms unfolding pinv_def on_deadline_def resolve_def clearInterval_def
  by (auto simp: invocations_append split: option.splits)

lemma pinv_advance: "pinv predicate T m t p \<Longrightarrow> t \<le> t' \<Longrightarrow> pinv predicate T m t' p"
  unfolding pinv_def by fastforce

text \<open>
  Whatever is handled, the invariant stays; handling the deadline timer moves the time up
  to which it has been looked at.
\<close>

lemma pinv_handle_due:
  assumes "pinv predicate T m t p" "t \<le> Suc m"
  shows "pinv predicate T (if h = DeadlineTimer then t else m) t (handle_due T I predicate t p h)"
  using assms by (cases h) (simp_all add: pinv_settle pinv_on_interval pinv_on_deadline)

lemma pinv_handle_all:
  assumes "pinv predicate T m t p" "t \<le> Suc m"
  shows "pinv predicate T (if DeadlineTimer \<in> set hs then t else m) t
           (foldl (handle_due T I predicate t) p hs)"
  using assms
proof (induction hs arbitrary: p m)
  case Nil
  then show ?case by simp
next
  case (Cons h hs)
  let ?m = "if h = DeadlineTimer then t else m"
  have 1: "pinv predicate T ?m t (handle_due T I predicate t p h)"
    using Cons.prems by (rule pinv_handle_due)
  have 2: "t \<le> Suc ?m" using Cons.prems(2) by simp
  have "pinv predicate T (if DeadlineTimer \<in> set hs then t else ?m) t
           (foldl (handle_due T I predicate t) (handle_due T I predicate t p h) hs)"
    using 1 2 by (rule Cons.IH)
  moreover have "(if DeadlineTimer \<in> set hs then t else ?m)
      = (if DeadlineTimer \<in> set (h # hs) then t else m)"
    by auto
  ultimately show ?case by simp
qed

lemma deadline_in_order: "DeadlineTimer \<in> set (in_order x)"
  by (cases x) simp_all

lemma pinv_tick:
  assumes "pinv predicate T t t p"
  shows "pinv predicate T (Suc t) (Suc t) (tick T I tie_at predicate p (Suc t))"
proof -
  have "pinv predicate T t (Suc t) p"
    using assms by (rule pinv_advance) simp
  then have "pinv predicate T (if DeadlineTimer \<in> set (in_order (tie_at (Suc t))) then Suc t else t) (Suc t)
           (foldl (handle_due T I predicate (Suc t)) p (in_order (tie_at (Suc t))))"
    by (rule pinv_handle_all) simp
  then show ?thesis by (simp add: tick_def deadline_in_order)
qed

lemma pinv_start: "0 < T \<Longrightarrow> pinv predicate T 0 0 poller_start"
  by (simp add: pinv_def poller_start_def)

lemma run_poller_Suc:
  "run_poller T I tie_at predicate (Suc n) = tick T I tie_at predicate (run_poller T I tie_at predicate n) (Suc n)"
  by (simp add: run_poller_def)

lemma pinv_run: "0 < T \<Longrightarrow> pinv predicate T n n (run_poller T I tie_at predicate n)"
proof (induction n)
  case 0
  then show ?case by (simp add: run_poller_def pinv_start)
next
  case (Suc n)
  then show ?case by (simp only: run_poller_Suc pinv_tick)
qed

lemma timer_delay_pos: "0 < timer_delay d"
  by (simp add: timer_delay_def)

section \<open>Running the poller by hand\<close>

text \<open>
  Ticks at which no timer is due and no answer arrives change nothing, which lets a proof
  jump over them instead of computing them one by one.
\<close>

lemma settle_idle: "\<forall>a\<in>set (inflight p). fst a \<noteq> t \<Longrightarrow> settle t p = p"
proof -
  assume a: "\<forall>a\<in>set (inflight p). fst a \<noteq> t"
  then have "filter (\<lambda>a. fst a = t) (inflight p) = []" "filter (\<lambda>a. fst a \<noteq> t) (inflight p) = inflight p"
    by (auto simp: filter_empty_conv)
  then show ?thesis by (simp add: settle_def)
qed

lemma tick_idle:
  assumes "\<not> trier p \<or> t mod I \<noteq> 0" "\<not> quitter p \<or> t \<noteq> T" "\<forall>a\<in>set (inflight p). fst a \<noteq> t"
  shows "tick T I tie_at predicate p t = p"
proof -
  have s: "settle t p = p" using assms(3) by (rule settle_idle)
  have i: "on_interval predicate I t p = p" using assms(1) by (auto simp: on_interval_def)
  have d: "on_deadline T t p = p" using assms(2) by (auto simp: on_deadline_def)
  show ?thesis by (cases "tie_at t") (simp_all add: tick_def s i d)
qed

lemma ticks_idle:
  assumes "\<forall>t\<in>set ts. (\<not> trier p \<or> t mod I \<noteq> 0) \<and> (\<not> quitter p \<or> t \<noteq> T) \<and> (\<forall>a\<in>set (inflight p). fst a \<noteq> t)"
  shows "foldl (tick T I tie_at predicate) p ts = p"
  using assms
proof (induction ts)
  case Nil
  then show ?case by simp
next
  case (Cons t ts)
  have "tick T I tie_at predicate p t = p"
    using Cons.prems by (intro tick_idle) simp_all
  with Cons show ?case by simp
qed

lemma run_poller_from:
  assumes "m \<le> n"
  shows "run_poller T I tie_at predicate n
     = foldl (tick T I tie_at predicate) (run_poller T I tie_at predicate m) [Suc m..<Suc n]"
proof -
  obtain k where n: "n = m + k"
    using assms by (auto simp: le_iff_add)
  have "[Suc 0..<Suc m + k] = [Suc 0..<Suc m] @ [Suc m..<Suc m + k]"
    by (rule upt_add_eq_append) simp
  then show ?thesis by (simp add: run_poller_def n)
qed

lemma mod_between: "I < t \<Longrightarrow> t < I + I \<Longrightarrow> t mod I \<noteq> (0::nat)"
proof -
  assume a: "I < t" "t < I + I"
  then have "t mod I = (t - I) mod I" by (simp add: le_mod_geq)
  also have "\<dots> = t - I" using a by simp
  finally show ?thesis using a by simp
qed

lemma run_poller_first_answer:
  assumes "predicate I = (d, Some x)" "0 < d" "d < I" "I + d < T" "I + d \<le> n"
  shows "run_poller T I tie_at predicate n
     = \<lparr>trier = False, quitter = False, outcome = Some (I + d, Some x), inflight = [],
        events = [Invoked I, Resolved (I + d) (Some x)]\<rparr>"
proof -
  let ?run = "run_poller T I tie_at predicate"
  let ?S = "\<lparr>trier = True, quitter = True, outcome = None, inflight = [(I + d, Some x)],
        events = [Invoked I]\<rparr> :: 'a poller"
  let ?R = "\<lparr>trier = False, quitter = False, outcome = Some (I + d, Some x), inflight = [],
        events = [Invoked I, Resolved (I + d) (Some x)]\<rparr> :: 'a poller"
  obtain i where I: "I = Suc i" using assms by (cases I) auto
  obtain j where d: "d = Suc j" using assms by (cases d) auto
  have "\<forall>t\<in>set [1..<Suc i]. (\<not> trier poller_start \<or> t mod I \<noteq> 0) \<and> (\<not> quitter poller_start \<or> t \<noteq> T)
       \<and> (\<forall>a\<in>set (inflight (poller_start :: 'a poller)). fst a \<noteq> t)"
  proof
    fix t assume "t \<in> set [1..<Suc i]"
    then have t: "0 < t" "t < I" by (auto simp del: upt_Suc simp: I)
    then have "t mod I \<noteq> 0" by simp
    with t assms(4) show "(\<not> trier poller_start \<or> t mod I \<noteq> 0) \<and> (\<not> quitter poller_start \<or> t \<noteq> T)
       \<and> (\<forall>a\<in>set (inflight (poller_start :: 'a poller)). fst a \<noteq> t)"
      by (simp add: poller_start_def)
  qed
  then have 1: "?run i = poller_start"
    unfolding run_poller_def by (rule ticks_idle)
  have "?run (Suc i) = tick T I tie_at predicate poller_start (Suc i)"
    by (simp only: run_poller_Suc 1)
  also have "\<dots> = ?S"
    using assms I
    by (cases "tie_at (Suc i)")
       (simp_all add: tick_def poller_start_def settle_def on_interval_def on_deadline_def
          success_call_def)
  finally have 2: "?run (Suc i) = ?S" .
  have "\<forall>t\<in>set [Suc (Suc i)..<Suc (Suc i + j)]. (\<not> trier ?S \<or> t mod I \<noteq> 0) \<and> (\<not> quitter ?S \<or> t \<noteq> T)
       \<and> (\<forall>a\<in>set (inflight ?S). fst a \<noteq> t)"
  proof
    fix t assume "t \<in> set [Suc (Suc i)..<Suc (Suc i + j)]"
    then have t: "I < t" "t < I + d" by (auto simp del: upt_Suc simp: I d)
    then have "t mod I \<noteq> 0" using assms(3) by (intro mod_between) simp_all
    with t assms(4) show "(\<not> trier ?S \<or> t mod I \<noteq> 0) \<and> (\<not> quitter ?S \<or> t \<noteq> T)
       \<and> (\<forall>a\<in>set (inflight ?S). fst a \<noteq> t)" by simp
  qed
  then have "foldl (tick T I tie_at predicate) ?S [Suc (Suc i)..<Suc (Suc i + j)] = ?S"
    by (rule ticks_idle)
  moreover have "?run (Suc i + j) = foldl (tick T I tie_at predicate) (?run (Suc i)) [Suc (Suc i)..<Suc (Suc i + j)]"
    by (rule run_poller_from) simp
  ultimately have 3: "?run (Suc i + j) = ?S" by (simp only: 2)
  have "?run (Suc (Suc i + j)) = tick T I tie_at predicate ?S (Suc (Suc i + j))"
    by (simp only: run_poller_Suc 3)
  also have "Suc (Suc i + j) = I + d" by (simp add: I d)
  also have "tick T I tie_at predicate ?S (I + d) = ?R"
  proof -
    have "(I + d) mod I \<noteq> 0"
      using assms(2,3) by (intro mod_between) simp_all
    then show ?thesis
      using assms(2,3,4)
      by (cases "tie_at (I + d)")
         (simp_all add: tick_def settle_def on_interval_def on_deadline_def success_rest_def
            resolve_def clearInterval_def clearTimeout_def)
  qed
  finally have 4: "?run (I + d) = ?R" .
  have "\<forall>t\<in>set [Suc (I + d)..<Suc n]. (\<not> trier ?R \<or> t mod I \<noteq> 0) \<and> (\<not> quitter ?R \<or> t \<noteq> T)
       \<and> (\<forall>a\<in>set (inflight ?R). fst a \<noteq> t)"
    by simp
  then have "foldl (tick T I tie_at predicate) ?R [Suc (I + d)..<Suc n] = ?R"
    by (rule ticks_idle)
  moreover have "?run n = foldl (tick T I tie_at predicate) (?run (I + d)) [Suc (I + d)..<Suc n]"
    using assms(5) by (rule run_poller_from)
  ultimately show ?thesis by (simp only: 4)
qed




section \<open>Awaited computations\<close>

lemma bnd_Inl: "fst (m w) = Inl e \<Longrightarrow> bnd m f w = (Inl e, snd (m w))"
  by (cases "m w") (auto simp: bnd_def)

lemma bnd_Inr: "m w = (Inr x, w') \<Longrightarrow> bnd m f w = f x w'"
  by (simp add: bnd_def)

lemma run_poller_never_truthy:
  assumes "0 < T" "\<forall>t. snd (predicate t) = None"
  shows "outcome (run_poller T I tie_at predicate T) = Some (T, None)"
proof -
  have inv: "pinv predicate T T T (run_poller T I tie_at predicate T)"
    using assms(1) by (rule pinv_run)
  obtain u v where uv: "outcome (run_poller T I tie_at predicate T) = Some (u, v)"
    using inv unfolding pinv_def by (cases "outcome (run_poller T I tie_at predicate T)") auto
  have "v = None"
  proof (cases v)
    case (Some x)
    then have "\<exists>c. snd (predicate c) = Some x"
      using inv uv unfolding pinv_def by blast
    with assms(2) show ?thesis by simp
  qed simp
  moreover from this have "u = T"
    using inv uv unfolding pinv_def by blast
  ultimately show ?thesis using uv by simp
qed

lemma waitFor_settles:
  "waitFor pg predicate timeout interval = Inr p \<Longrightarrow> outcome p \<noteq> None"
proof -
  assume a: "waitFor pg predicate timeout interval = Inr p"
  then obtain T where p: "p = run_poller (timer_delay T) (timer_delay (waitFor_interval interval))
      (ties pg) predicate (timer_delay T)"
    by (auto simp: waitFor_def split: sum.splits)
  have "pinv predicate (timer_delay T) (timer_delay T) (timer_delay T) p"
    unfolding p by (rule pinv_run) (rule timer_delay_pos)
  then show ?thesis unfolding pinv_def by auto
qed

lemma await_waitFor_settles: "fst (await_waitFor pg r selector timeout w) \<noteq> Inl Unsettled"
proof (cases "waitFor pg (\<lambda>t. first_match (xpath_query pg r selector (clock w + t))) timeout None")
  case (Inl e)
  then have "e = TypeError"
    by (auto simp: waitFor_def waitFor_timeout_def split: sum.splits option.splits if_splits)
  with Inl show ?thesis by (simp add: await_waitFor_def)
next
  case (Inr p)
  then have "outcome p \<noteq> None" by (rule waitFor_settles)
  with Inr show ?thesis by (auto simp: await_waitFor_def)
qed

lemma waitFor_never_truthy:
  assumes "\<forall>t. snd (predicate t) = None" "waitFor_timeout pg timeout = Inr T"
  shows "\<exists>p. waitFor pg predicate timeout interval = Inr p \<and> outcome p = Some (timer_delay T, None)"
  using assms run_poller_never_truthy[OF timer_delay_pos, of predicate T]
  by (simp add: waitFor_def)

lemma await_waitFor_never:
  assumes "\<forall>t. snd (first_match (xpath_query pg r selector t)) = None"
    and "waitFor_timeout pg timeout = Inr T"
  shows "\<exists>w'. await_waitFor pg r selector timeout w = (Inr None, w') \<and> clock w' = clock w + timer_delay T
      \<and> allocated w' = allocated w"
proof -
  obtain p where p: "waitFor pg (\<lambda>t. first_match (xpath_query pg r selector (clock w + t))) timeout None = Inr p"
     "outcome p = Some (timer_delay T, None)"
    using waitFor_never_truthy[of "\<lambda>t. first_match (xpath_query pg r selector (clock w + t))" pg timeout T None] assms
    by auto
  show ?thesis by (simp add: await_waitFor_def p)
qed

section \<open>exists\<close>

text \<open>
  C3. \<open>exists\<close> never rejects: it resolves with true when the element's fetch, called
  with the timeout, resolves with a handle, and with false when the fetch rejects, whatever
  the error.
\<close>

theorem exists_never_throws:
  "(\<forall>h w'. fetch this (Some timeout) w = (Inr h, w') \<longrightarrow> exists this timeout w = (Inr True, w'))
   \<and> (\<forall>e w'. fetch this (Some timeout) w = (Inl e, w') \<longrightarrow> exists this timeout w = (Inr False, w'))
   \<and> (\<exists>b. fst (exists this timeout w) = Inr b)"
  by (cases "fetch this (Some timeout) w"; cases "fst (fetch this (Some timeout) w)")
     (auto simp: exists_def catch_def bnd_def ret_def truthy_object_def)

lemma PompPage_x_fetcher_empty_3:
  "PompPage_x_fetcher empty_page ''//a'' (Some 3) world0
     = (Inl (PompTimeoutError ''//a'' 3), \<lparr>clock = 3, calls = [], allocated = 0\<rparr>)"
  by code_simp

theorem exists_never_throws_witness:
  "fetch (pinned list_page 1) (Some 5) world0 = (Inr 1, world0)
   \<and> exists (pinned list_page 1) 5 world0 = (Inr True, world0)
   \<and> fetch missing_link (Some 3) world0
       = (Inl (PompTimeoutError ''//a'' 3), \<lparr>clock = 3, calls = [], allocated = 0\<rparr>)
   \<and> exists missing_link 3 world0 = (Inr False, \<lparr>clock = 3, calls = [], allocated = 0\<rparr>)"
proof -
  have 1: "fetch (pinned list_page 1) (Some 5) world0 = (Inr 1, world0)"
    by (simp add: pinned_def ret_def)
  have 2: "fetch missing_link (Some 3) world0
       = (Inl (PompTimeoutError ''//a'' 3), \<lparr>clock = 3, calls = [], allocated = 0\<rparr>)"
    by (simp add: missing_link_def PompPage_x_fetcher_empty_3)
  show ?thesis
    using exists_never_throws [of "pinned list_page 1" 5 world0]
      exists_never_throws [of missing_link 3 world0] 1 2
    by simp
qed

section \<open>classes\<close>

lemma classes_pinned:
  "fst (classes (pinned (pg\<lparr>read_property := (\<lambda>h name t. (d, Inr v))\<rparr>) h) w)
     = Inr (js_split v CHR '' '')"
  by (simp add: classes_def pinned_def bnd_def ret_def call_getProperty_def)

text \<open>
  C4. \<open>classes\<close> should split the \<open>className\<close> at whitespace into the class names,
  none of them empty or holding whitespace. The code calls \<open>split(" ")\<close>: on two spaces
  in a row it returns an empty token, on the empty \<open>className\<close> (an element with no
  class) the one-token list of the empty string, and a tab separates nothing.
\<close>

theorem classes_keeps_empty_and_spaced_tokens:
  "fst (classes (pinned (pg\<lparr>read_property := (\<lambda>h name t. (d, Inr ''item  selected''))\<rparr>) h) w)
     = Inr [''item'', [], ''selected'']
   \<and> fst (classes (pinned (pg\<lparr>read_property := (\<lambda>h name t. (d, Inr []))\<rparr>) h) w) = Inr [[]]
   \<and> fst (classes (pinned (pg\<lparr>read_property := (\<lambda>h name t. (d, Inr [CHR ''a'', CHR 0x09, CHR ''b'']))\<rparr>) h) w)
     = Inr [[CHR ''a'', CHR 0x09, CHR ''b'']]"
  by (simp add: classes_pinned js_split_def)

section \<open>Collections located by xpath\<close>

lemma waitFor_timeout_with_settings:
  "timeoutSettings pg = Some (Some d) \<Longrightarrow> \<exists>T. waitFor_timeout pg timeout = Inr T"
  by (auto simp: waitFor_timeout_def split: option.splits)

text \<open>
  C1. An xpath collection locator whose selector matches nothing until the deadline
  should reject with a \<open>PompTimeoutError\<close>, where a css collection locator resolves with
  the empty collection. The code does not reject: on a page whose xpath queries match
  nothing, the fetch of the collection made by \<open>$$x\<close>, of the page or of an element,
  resolves with the empty collection, whatever the timeout, as the css one does; the
  single locator \<open>$x\<close> on the same page does reject with the error.
\<close>

theorem xpath_collection_without_match_resolves_empty:
  fixes pg :: page and d :: int and lat :: nat and e :: error
  defines "pg0 \<equiv> pg\<lparr>timeoutSettings := Some (Some d), xpath_query := (\<lambda>r selector t. (lat, Inr []))\<rparr>"
    and "pg1 \<equiv> pg\<lparr>wait_selector := (\<lambda>r selector timeout t. (lat, Inl e)),
                     css_query := (\<lambda>r selector t. (lat, Inr []))\<rparr>"
  shows "fst (PompElementCollection_fetch pg0 (PompPage_xx_fetcher pg0 selector) Type timeout w) = Inr []
       \<and> fst (PompElementCollection_fetch pg0 (PompElement_xx_fetcher (pinned pg0 h) selector) Type timeout w) = Inr []
       \<and> fst (PompPage_x_fetcher pg0 selector timeout w) = Inl (PompTimeoutError selector (error_timeout pg0 timeout))
       \<and> fst (PompElementCollection_fetch pg1 (PompPage_css_all_fetcher pg1 selector) Type timeout w) = Inr []"
proof -
  obtain T where T: "waitFor_timeout pg0 timeout = Inr T"
    using waitFor_timeout_with_settings [of pg0 d timeout] by (auto simp: pg0_def)
  have never: "\<forall>t. snd (first_match (xpath_query pg0 r selector t)) = None" for r
    by (simp add: pg0_def first_match_def)
  obtain w1 where w1: "await_waitFor pg0 Document selector timeout w = (Inr None, w1)"
    using await_waitFor_never [OF never T, of Document w] by blast
  obtain w2 where w2: "await_waitFor pg0 (Node h) selector timeout w = (Inr None, w2)"
    using await_waitFor_never [OF never T, of "Node h" w] by blast
  have q: "fst (call_xpath pg0 r selector w') = Inr []" for r w'
    by (simp add: call_xpath_def pg0_def)
  have a: "fst (PompPage_xx_fetcher pg0 selector timeout w) = Inr []"
    by (simp add: PompPage_xx_fetcher_def bnd_def w1 truthy_object_def q)
  have b: "fst (PompElement_xx_fetcher (pinned pg0 h) selector timeout w) = Inr []"
    by (simp add: PompElement_xx_fetcher_def pinned_def bnd_def ret_def w2 truthy_object_def q)
  have c: "fst (m w) = Inr [] \<Longrightarrow> fst (PompElementCollection_fetch pg0 m' Type timeout w) = Inr []"
    if "m' timeout = m" for m m'
    using that by (cases "m w") (auto simp: PompElementCollection_fetch_def bnd_def ret_def)
  have x: "fst (PompPage_x_fetcher pg0 selector timeout w)
      = Inl (PompTimeoutError selector (error_timeout pg0 timeout))"
    by (simp add: PompPage_x_fetcher_def bnd_def w1 throw_def new_PompTimeoutError_def)
  have y: "fst (PompElementCollection_fetch pg1 (PompPage_css_all_fetcher pg1 selector) Type timeout w) = Inr []"
    by (simp add: PompElementCollection_fetch_def PompPage_css_all_fetcher_def bnd_def catch_def
        ret_def call_waitForSelector_def call_css_def pg1_def)
  show ?thesis using a b c x y by simp
qed

section \<open>Chains of locators\<close>

lemma fetch_PompElement_x:
  "PompElement_x this selector Type v = (Inr x, v') \<Longrightarrow> fetch x = PompElement_x_fetcher this selector"
  by (auto simp: PompElement_x_def new_PompElement_def)

lemma fetch_PompElement_css:
  "PompElement_css this selector Type v = (Inr x, v') \<Longrightarrow> fetch x = PompElement_css_fetcher this selector"
  by (auto simp: PompElement_css_def new_PompElement_def)

lemma fetch_PompElement_xx:
  "PompElement_xx this selector Type v = (Inr c, v') \<Longrightarrow>
   co_fetch c = PompElementCollection_fetch (el_page this) (PompElement_xx_fetcher this selector) Type"
  by (auto simp: PompElement_xx_def new_PompElementCollection_def)

lemma fetch_PompElement_css_all:
  "PompElement_css_all this selector Type v = (Inr c, v') \<Longrightarrow>
   co_fetch c = PompElementCollection_fetch (el_page this) (PompElement_css_all_fetcher this selector) Type"
  by (auto simp: PompElement_css_all_def new_PompElementCollection_def)

lemma fetch_PompPage_x:
  "PompPage_x pg selector Type v = (Inr x, v') \<Longrightarrow> fetch x = PompPage_x_fetcher pg selector"
  by (auto simp: PompPage_x_def new_PompElement_def)

lemma x_fetcher_parent_fails:
  "fst (fetch this None w) = Inl e \<Longrightarrow>
   PompElement_x_fetcher this selector timeout w = (Inl e, snd (fetch this None w))"
  unfolding PompElement_x_fetcher_def by (rule bnd_Inl)

lemma css_fetcher_parent_fails:
  "fst (fetch this None w) = Inl e \<Longrightarrow>
   PompElement_css_fetcher this selector timeout w = (Inl e, snd (fetch this None w))"
  unfolding PompElement_css_fetcher_def by (rule bnd_Inl)

lemma xx_fetcher_parent_fails:
  "fst (fetch this None w) = Inl e \<Longrightarrow>
   PompElement_xx_fetcher this selector timeout w = (Inl e, snd (fetch this None w))"
  unfolding PompElement_xx_fetcher_def by (rule bnd_Inl)

lemma css_all_fetcher_parent_fails:
  "fst (fetch this None w) = Inl e \<Longrightarrow>
   PompElement_css_all_fetcher this selector timeout w = (Inl e, snd (fetch this None w))"
  unfolding PompElement_css_all_fetcher_def by (rule bnd_Inl)

lemma collection_fetch_fails:
  "collectionFetcher timeout w = (Inl e, w') \<Longrightarrow>
   PompElementCollection_fetch pg collectionFetcher Type timeout w = (Inl e, w')"
  by (simp add: PompElementCollection_fetch_def bnd_def)

lemma single_child_fails:
  assumes "fst (fetch A None w) = Inl e"
    and "PompElement_x A selector Type v = (Inr B, v') \<or> PompElement_css A selector Type v = (Inr B, v')"
  shows "fetch B timeout w = (Inl e, snd (fetch A None w))"
  using assms
  by (auto simp: fetch_PompElement_x fetch_PompElement_css x_fetcher_parent_fails
      css_fetcher_parent_fails)

lemma collection_child_fails:
  assumes "fst (fetch A None w) = Inl e"
    and "PompElement_xx A selector Type v = (Inr BB, v') \<or> PompElement_css_all A selector Type v = (Inr BB, v')"
  shows "co_fetch BB timeout w = (Inl e, snd (fetch A None w))"
  using assms
  by (auto simp: fetch_PompElement_xx fetch_PompElement_css_all xx_fetcher_parent_fails
      css_all_fetcher_parent_fails collection_fetch_fails)

lemma PompPage_x_fetcher_never:
  assumes "\<forall>t. snd (first_match (xpath_query pg Document selector t)) = None"
    and "waitFor_timeout pg timeout = Inr T"
  shows "fst (PompPage_x_fetcher pg selector timeout w)
      = Inl (PompTimeoutError selector (error_timeout pg timeout))"
proof -
  obtain w1 where "await_waitFor pg Document selector timeout w = (Inr None, w1)"
    using await_waitFor_never [OF assms, of w] by blast
  then show ?thesis
    by (simp add: PompPage_x_fetcher_def bnd_def throw_def new_PompTimeoutError_def)
qed

lemma appendsD: "appends m \<Longrightarrow> \<exists>cs. calls (snd (m w)) = calls w @ cs"
  by (simp add: appends_def)

lemma appends_ret: "appends (ret x)"
  by (simp add: appends_def ret_def)

lemma appends_throw: "appends (throw e)"
  by (simp add: appends_def throw_def)

lemma appends_bnd:
  assumes "appends m" "\<And>x. appends (f x)"
  shows "appends (bnd m f)"
  unfolding appends_def
proof
  fix w
  obtain r w1 where m: "m w = (r, w1)" by (cases "m w")
  obtain cs where cs: "calls w1 = calls w @ cs"
    using appendsD [OF assms(1), of w] m by auto
  show "\<exists>cs. calls (snd (bnd m f w)) = calls w @ cs"
  proof (cases r)
    case (Inl e)
    then show ?thesis using m cs by (simp add: bnd_def)
  next
    case (Inr x)
    obtain ds where "calls (snd (f x w1)) = calls w1 @ ds"
      using appendsD [OF assms(2), of x w1] by auto
    then show ?thesis using m cs Inr by (simp add: bnd_def)
  qed
qed

lemma appends_catch:
  assumes "appends m" "\<And>e. appends (h e)"
  shows "appends (catch m h)"
  unfolding appends_def
proof
  fix w
  obtain r w1 where m: "m w = (r, w1)" by (cases "m w")
  obtain cs where cs: "calls w1 = calls w @ cs"
    using appendsD [OF assms(1), of w] m by auto
  show "\<exists>cs. calls (snd (catch m h w)) = calls w @ cs"
  proof (cases r)
    case (Inr x)
    then show ?thesis using m cs by (simp add: catch_def)
  next
    case (Inl e)
    obtain ds where "calls (snd (h e w1)) = calls w1 @ ds"
      using appendsD [OF assms(2), of e w1] by auto
    then show ?thesis using m cs Inl by (simp add: catch_def)
  qed
qed

lemma appends_call_xpath: "appends (call_xpath pg r selector)"
  by (simp add: appends_def call_xpath_def split: prod.splits)

lemma appends_call_css: "appends (call_css pg r selector)"
  by (simp add: appends_def call_css_def split: prod.splits)

lemma appends_call_waitForSelector: "appends (call_waitForSelector pg r selector timeout)"
  by (simp add: appends_def call_waitForSelector_def split: prod.splits)

lemma appends_await_waitFor: "appends (await_waitFor pg r selector timeout)"
  by (simp add: appends_def await_waitFor_def split: sum.splits option.splits prod.splits)

lemma appends_new_PompElement: "appends (new_PompElement Type pg fetcher)"
  by (simp add: appends_def new_PompElement_def)

lemma appends_map_new: "appends (map_new Type pg hs)"
  by (induction hs) (auto intro!: appends_bnd appends_ret appends_new_PompElement)

lemma appends_x_rest:
  "appends (\<lambda>w. (bnd (await_waitFor pg r selector timeout) (\<lambda>el.
     case el of None \<Rightarrow> throw e | Some h \<Rightarrow> ret h)) w)"
  by (auto intro!: appends_bnd appends_await_waitFor appends_ret appends_throw split: option.splits)

lemma appends_xx_rest:
  "appends (bnd (await_waitFor pg r selector timeout) (\<lambda>_.
     let el = call_xpath pg r selector in
     if \<not> truthy_object el then throw e else el))"
  by (auto intro!: appends_bnd appends_await_waitFor appends_call_xpath simp: truthy_object_def)

lemma appends_css_all_rest:
  "appends (bnd (catch (bnd (call_waitForSelector pg r selector timeout) (\<lambda>_. ret ()))
                (\<lambda>e. ret ())) (\<lambda>_.
     bnd (call_css pg r selector) (\<lambda>els. ret els)))"
  by (intro appends_bnd appends_catch appends_call_waitForSelector appends_call_css appends_ret)

lemma appends_collection_fetch:
  assumes "appends (collectionFetcher timeout)"
  shows "appends (PompElementCollection_fetch pg collectionFetcher Type timeout)"
  unfolding PompElementCollection_fetch_def
  by (intro appends_bnd assms appends_map_new)

lemma fetchers_after_parent:
  assumes "fetch A None w = (Inr h, w1)"
  shows "\<exists>cs. calls (snd (PompElement_x_fetcher A selector timeout w)) = calls w1 @ cs"
    and "\<exists>cs. calls (snd (PompElement_css_fetcher A selector timeout w)) = calls w1 @ cs"
    and "\<exists>cs. calls (snd (PompElementCollection_fetch pg (PompElement_xx_fetcher A selector) Type timeout w))
            = calls w1 @ cs"
    and "\<exists>cs. calls (snd (PompElementCollection_fetch pg (PompElement_css_all_fetcher A selector) Type timeout w))
            = calls w1 @ cs"
proof -
  show "\<exists>cs. calls (snd (PompElement_x_fetcher A selector timeout w)) = calls w1 @ cs"
    unfolding PompElement_x_fetcher_def bnd_Inr [where m = "fetch A None", OF assms]
    using appends_x_rest by (rule appendsD)
  show "\<exists>cs. calls (snd (PompElement_css_fetcher A selector timeout w)) = calls w1 @ cs"
    unfolding PompElement_css_fetcher_def bnd_Inr [where m = "fetch A None", OF assms]
    using appends_call_waitForSelector by (rule appendsD)
  have xx: "PompElement_xx_fetcher A selector timeout w
      = bnd (await_waitFor (el_page A) (Node h) selector timeout) (\<lambda>_.
         let el = call_xpath (el_page A) (Node h) selector in
         if \<not> truthy_object el then throw (new_PompTimeoutError (el_page A) selector timeout) else el) w1"
    unfolding PompElement_xx_fetcher_def bnd_Inr [where m = "fetch A None", OF assms] ..
  have ca: "PompElement_css_all_fetcher A selector timeout w
      = bnd (catch (bnd (call_waitForSelector (el_page A) (Node h) selector timeout) (\<lambda>_. ret ()))
                (\<lambda>e. ret ())) (\<lambda>_.
         bnd (call_css (el_page A) (Node h) selector) (\<lambda>els. ret els)) w1"
    unfolding PompElement_css_all_fetcher_def bnd_Inr [where m = "fetch A None", OF assms] ..
  have coll: "\<exists>cs. calls (snd (PompElementCollection_fetch pg cf Type timeout w)) = calls w1 @ cs"
    if "cf timeout w = k w1" "appends k" for cf and k :: "handle list io"
  proof -
    have "PompElementCollection_fetch pg cf Type timeout w = bnd k (\<lambda>collection. map_new Type pg collection) w1"
      using that(1) by (simp add: PompElementCollection_fetch_def bnd_def)
    moreover have "appends (bnd k (\<lambda>collection. map_new Type pg collection))"
      by (intro appends_bnd that(2) appends_map_new)
    ultimately show ?thesis by (simp add: appendsD)
  qed
  show "\<exists>cs. calls (snd (PompElementCollection_fetch pg (PompElement_xx_fetcher A selector) Type timeout w))
            = calls w1 @ cs"
    using xx appends_xx_rest by (rule coll)
  show "\<exists>cs. calls (snd (PompElementCollection_fetch pg (PompElement_css_all_fetcher A selector) Type timeout w))
            = calls w1 @ cs"
    using ca appends_css_all_rest by (rule coll)
qed

text \<open>
  C5. The fetch of a child locator of an element, single or collection, css or xpath,
  starts with the parent's fetch. If the parent's fetch rejects, the child's rejects with
  the same error and leaves the world as the parent's fetch left it: no query of the
  child is made. So in a chain A, B, C the fetch of C rejects with A's error. If the
  parent's fetch resolves, the driver calls of the child's fetch begin with those of the
  parent's. And if A is the page's \<open>$x\<close> locator and its query never matches, the error
  is the \<open>PompTimeoutError\<close> of A's selector.
\<close>

theorem child_fetch_starts_with_parents_fetch:
  "(fst (fetch A None w) = Inl e \<longrightarrow>
      ((PompElement_x A selB TyB vB = (Inr B, vB') \<or> PompElement_css A selB TyB vB = (Inr B, vB')) \<longrightarrow>
         fetch B timeout w = (Inl e, snd (fetch A None w))
         \<and> ((PompElement_x B selC TyC vC = (Inr C, vC') \<or> PompElement_css B selC TyC vC = (Inr C, vC')) \<longrightarrow>
              fetch C timeout' w = (Inl e, snd (fetch A None w)))
         \<and> ((PompElement_xx B selC TyC vC = (Inr CC, vC') \<or> PompElement_css_all B selC TyC vC = (Inr CC, vC')) \<longrightarrow>
              co_fetch CC timeout' w = (Inl e, snd (fetch A None w))))
      \<and> ((PompElement_xx A selB TyB vB = (Inr BB, vB') \<or> PompElement_css_all A selB TyB vB = (Inr BB, vB')) \<longrightarrow>
           co_fetch BB timeout w = (Inl e, snd (fetch A None w))))
   \<and> (fetch A None w = (Inr h, w1) \<longrightarrow>
        ((PompElement_x A selB TyB vB = (Inr B, vB') \<or> PompElement_css A selB TyB vB = (Inr B, vB')) \<longrightarrow>
           (\<exists>cs. calls (snd (fetch B timeout w)) = calls w1 @ cs))
        \<and> ((PompElement_xx A selB TyB vB = (Inr BB, vB') \<or> PompElement_css_all A selB TyB vB = (Inr BB, vB')) \<longrightarrow>
             (\<exists>cs. calls (snd (co_fetch BB timeout w)) = calls w1 @ cs)))
   \<and> (PompPage_x pg selA TyA vA = (Inr A, vA')
        \<and> (\<forall>t. snd (first_match (xpath_query pg Document selA t)) = None)
        \<and> timeoutSettings pg = Some (Some d) \<longrightarrow>
      fst (fetch A None w) = Inl (PompTimeoutError selA (if d \<noteq> 0 then d else 10000)))"
proof (intro conjI impI)
  assume A: "fst (fetch A None w) = Inl e"
    and B: "PompElement_x A selB TyB vB = (Inr B, vB') \<or> PompElement_css A selB TyB vB = (Inr B, vB')"
  show "fetch B timeout w = (Inl e, snd (fetch A None w))"
    using A B by (rule single_child_fails)
  have B': "fetch B None w = (Inl e, snd (fetch A None w))"
    using A B by (rule single_child_fails)
  then have Bf: "fst (fetch B None w) = Inl e" and Bs: "snd (fetch B None w) = snd (fetch A None w)"
    by simp_all
  {
    assume "PompElement_x B selC TyC vC = (Inr C, vC') \<or> PompElement_css B selC TyC vC = (Inr C, vC')"
    with Bf have "fetch C timeout' w = (Inl e, snd (fetch B None w))"
      by (rule single_child_fails)
    then show "fetch C timeout' w = (Inl e, snd (fetch A None w))"
      by (simp add: Bs)
  }
  {
    assume "PompElement_xx B selC TyC vC = (Inr CC, vC') \<or> PompElement_css_all B selC TyC vC = (Inr CC, vC')"
    with Bf have "co_fetch CC timeout' w = (Inl e, snd (fetch B None w))"
      by (rule collection_child_fails)
    then show "co_fetch CC timeout' w = (Inl e, snd (fetch A None w))"
      by (simp add: Bs)
  }
next
  assume "fst (fetch A None w) = Inl e"
    and "PompElement_xx A selB TyB vB = (Inr BB, vB') \<or> PompElement_css_all A selB TyB vB = (Inr BB, vB')"
  then show "co_fetch BB timeout w = (Inl e, snd (fetch A None w))"
    by (rule collection_child_fails)
next
  assume A: "fetch A None w = (Inr h, w1)"
    and "PompElement_x A selB TyB vB = (Inr B, vB') \<or> PompElement_css A selB TyB vB = (Inr B, vB')"
  then have "fetch B = PompElement_x_fetcher A selB \<or> fetch B = PompElement_css_fetcher A selB"
    by (auto dest: fetch_PompElement_x fetch_PompElement_css)
  then show "\<exists>cs. calls (snd (fetch B timeout w)) = calls w1 @ cs"
    using fetchers_after_parent(1,2) [OF A] by auto
next
  assume A: "fetch A None w = (Inr h, w1)"
    and "PompElement_xx A selB TyB vB = (Inr BB, vB') \<or> PompElement_css_all A selB TyB vB = (Inr BB, vB')"
  then have "co_fetch BB = PompElementCollection_fetch (el_page A) (PompElement_xx_fetcher A selB) TyB
      \<or> co_fetch BB = PompElementCollection_fetch (el_page A) (PompElement_css_all_fetcher A selB) TyB"
    by (auto dest: fetch_PompElement_xx fetch_PompElement_css_all)
  then show "\<exists>cs. calls (snd (co_fetch BB timeout w)) = calls w1 @ cs"
    using fetchers_after_parent(3,4) [OF A] by auto
next
  assume h: "PompPage_x pg selA TyA vA = (Inr A, vA')
        \<and> (\<forall>t. snd (first_match (xpath_query pg Document selA t)) = None)
        \<and> timeoutSettings pg = Some (Some d)"
  then have T: "waitFor_timeout pg None = Inr (if d \<noteq> 0 then d else 10000)"
    by (simp add: waitFor_timeout_def)
  have "fst (PompPage_x_fetcher pg selA None w) = Inl (PompTimeoutError selA (error_timeout pg None))"
    using h T by (intro PompPage_x_fetcher_never) auto
  moreover have "fetch A = PompPage_x_fetcher pg selA"
    using h by (auto dest: fetch_PompPage_x)
  ultimately show "fst (fetch A None w) = Inl (PompTimeoutError selA (if d \<noteq> 0 then d else 10000))"
    using h by (simp add: error_timeout_def truthy_number_def)
qed


theorem child_fetch_starts_with_parents_fetch_witness:
  "PompPage_x empty_page ''//a'' None world0 = (Inr missing_link, world0\<lparr>allocated := 1\<rparr>)
   \<and> PompElement_x missing_link ''.//b'' None (world0\<lparr>allocated := 1\<rparr>)
       = (Inr chain_B, world0\<lparr>allocated := 2\<rparr>)
   \<and> PompElement_css chain_B ''c'' None (world0\<lparr>allocated := 2\<rparr>)
       = (Inr chain_C, world0\<lparr>allocated := 3\<rparr>)
   \<and> PompElement_xx chain_B ''.//c'' None (world0\<lparr>allocated := 2\<rparr>)
       = (Inr chain_CC, world0\<lparr>allocated := 3\<rparr>)
   \<and> fst (fetch missing_link None world0) = Inl (PompTimeoutError ''//a'' 30000)
   \<and> fetch chain_C (Some 5) world0
       = (Inl (PompTimeoutError ''//a'' 30000), snd (fetch missing_link None world0))
   \<and> co_fetch chain_CC (Some 5) world0
       = (Inl (PompTimeoutError ''//a'' 30000), snd (fetch missing_link None world0))
   \<and> fetch (pinned list_page 1) None world0 = (Inr 1, world0)
   \<and> PompElement_css (pinned list_page 1) ''a'' None (world0\<lparr>allocated := 1\<rparr>)
       = (Inr first_item_link, world0\<lparr>allocated := 2\<rparr>)
   \<and> (\<exists>cs. calls (snd (fetch first_item_link (Some 5) world0)) = calls world0 @ cs)"
proof -
  have A: "PompPage_x empty_page ''//a'' None world0 = (Inr missing_link, world0\<lparr>allocated := 1\<rparr>)"
    by (simp add: PompPage_x_def new_PompElement_def missing_link_def world0_def)
  have B: "PompElement_x missing_link ''.//b'' None (world0\<lparr>allocated := 1\<rparr>)
       = (Inr chain_B, world0\<lparr>allocated := 2\<rparr>)"
    by (simp add: PompElement_x_def new_PompElement_def chain_B_def missing_link_def world0_def)
  have C: "PompElement_css chain_B ''c'' None (world0\<lparr>allocated := 2\<rparr>)
       = (Inr chain_C, world0\<lparr>allocated := 3\<rparr>)"
    by (simp add: PompElement_css_def new_PompElement_def chain_C_def chain_B_def world0_def)
  have CC: "PompElement_xx chain_B ''.//c'' None (world0\<lparr>allocated := 2\<rparr>)
       = (Inr chain_CC, world0\<lparr>allocated := 3\<rparr>)"
    by (simp add: PompElement_xx_def new_PompElementCollection_def chain_CC_def chain_B_def world0_def)
  have never: "\<forall>t. snd (first_match (xpath_query empty_page Document ''//a'' t)) = None"
    by (simp add: empty_page_def first_match_def)
  have settings: "timeoutSettings empty_page = Some (Some 30000)"
    by (simp add: empty_page_def)
  have P: "fetch (pinned list_page 1) None world0 = (Inr 1, world0)"
    by (simp add: pinned_def ret_def)
  have L: "PompElement_css (pinned list_page 1) ''a'' None (world0\<lparr>allocated := 1\<rparr>)
       = (Inr first_item_link, world0\<lparr>allocated := 2\<rparr>)"
    by (simp add: PompElement_css_def new_PompElement_def first_item_link_def pinned_def world0_def)
  have fA: "fst (fetch missing_link None world0) = Inl (PompTimeoutError ''//a'' 30000)"
    using child_fetch_starts_with_parents_fetch
      [where A = missing_link and w = world0 and pg = empty_page and selA = "''//a''"
         and TyA = None and vA = world0 and vA' = "world0\<lparr>allocated := 1\<rparr>" and d = 30000,
       THEN conjunct2, THEN conjunct2, THEN mp, OF conjI, OF A, OF conjI, OF never, OF settings]
    by simp
  note fB = child_fetch_starts_with_parents_fetch
      [where A = missing_link and w = world0, THEN conjunct1, THEN mp, OF fA,
       THEN conjunct1, THEN mp, OF disjI1, OF B]
  have fC: "fetch chain_C (Some 5) world0
       = (Inl (PompTimeoutError ''//a'' 30000), snd (fetch missing_link None world0))"
    by (rule fB [THEN conjunct2, THEN conjunct1, THEN mp, OF disjI2, OF C])
  have fCC: "co_fetch chain_CC (Some 5) world0
       = (Inl (PompTimeoutError ''//a'' 30000), snd (fetch missing_link None world0))"
    by (rule fB [THEN conjunct2, THEN conjunct2, THEN mp, OF disjI1, OF CC])
  have fL: "\<exists>cs. calls (snd (fetch first_item_link (Some 5) world0)) = calls world0 @ cs"
    by (rule child_fetch_starts_with_parents_fetch
      [where A = "pinned list_page 1" and w = world0, THEN conjunct2, THEN conjunct1, THEN mp, OF P,
       THEN conjunct1, THEN mp, OF disjI2, OF L])
  show ?thesis
    by (intro conjI A B C CC fA fC fCC P L fL)
qed

section \<open>Fetching a collection\<close>

lemma map_new_items:
  "map_new Type pg hs w
     = (Inr (items_from Type pg (allocated w) hs), w\<lparr>allocated := allocated w + length hs\<rparr>)"
proof (induction hs arbitrary: w)
  case Nil
  then show ?case by (simp add: ret_def)
next
  case (Cons h hs)
  show ?case
    by (simp add: bnd_def ret_def new_PompElement_def Cons.IH)
qed

lemma length_items_from: "length (items_from Type pg n hs) = length hs"
  by (induction hs arbitrary: n) auto

lemma nth_items_from:
  "i < length hs \<Longrightarrow>
   items_from Type pg n hs ! i
     = \<lparr>ident = n + i, subtype = Type, el_page = pg, fetch = (\<lambda>timeout. ret (hs ! i))\<rparr>"
proof (induction hs arbitrary: n i)
  case Nil
  then show ?case by simp
next
  case (Cons h hs)
  then show ?case by (cases i) auto
qed

lemma ident_items_from: "map ident (items_from Type pg n hs) = [n..<n + length hs]"
proof (induction hs arbitrary: n)
  case Nil
  then show ?case by simp
next
  case (Cons h hs)
  then show ?case by (simp add: upt_rec)
qed

lemma collection_fetch_items:
  assumes "collectionFetcher timeout w = (Inr hs, w1)"
  shows "PompElementCollection_fetch pg collectionFetcher Type timeout w
     = (Inr (items_from Type pg (allocated w1) hs), w1\<lparr>allocated := allocated w1 + length hs\<rparr>)"
  using assms by (simp add: PompElementCollection_fetch_def bnd_def map_new_items)

text \<open>
  C8. A fetch of a collection calls the handle-list fetch and makes one new element per
  handle, in order, of the supplied class, on the collection's page, whose fetch resolves
  with that handle whatever the timeout and leaves the world as it is (no query); the
  fetch adds no driver call of its own. Two fetches make elements with different
  identities, none shared, and when both get the same handles the elements at each
  position have the same fetch.
\<close>

theorem collection_fetch_makes_fresh_pinned_elements:
  assumes "collectionFetcher timeout w = (Inr hs, w1)"
    and "PompElementCollection_fetch pg collectionFetcher Type timeout w = (r, w2)"
    and "collectionFetcher timeout' w3 = (Inr hs', w4)"
    and "allocated w2 \<le> allocated w4"
    and "PompElementCollection_fetch pg collectionFetcher Type timeout' w3 = (r', w5)"
  shows "\<exists>els els'. r = Inr els \<and> r' = Inr els'
       \<and> length els = length hs \<and> length els' = length hs'
       \<and> calls w2 = calls w1 \<and> clock w2 = clock w1
       \<and> (\<forall>i<length hs. subtype (els ! i) = Type \<and> el_page (els ! i) = pg
             \<and> (\<forall>t v. fetch (els ! i) t v = (Inr (hs ! i), v)))
       \<and> (\<forall>i<length hs'. \<forall>t v. fetch (els' ! i) t v = (Inr (hs' ! i), v))
       \<and> (hs' = hs \<longrightarrow> (\<forall>i<length hs. fetch (els' ! i) = fetch (els ! i)))
       \<and> distinct (map ident els) \<and> distinct (map ident els')
       \<and> set (map ident els) \<inter> set (map ident els') = {}"
proof -
  let ?els = "items_from Type pg (allocated w1) hs"
  let ?els' = "items_from Type pg (allocated w4) hs'"
  have 1: "r = Inr ?els" "w2 = w1\<lparr>allocated := allocated w1 + length hs\<rparr>"
    using collection_fetch_items [where collectionFetcher = collectionFetcher and pg = pg and Type = Type, OF assms(1)] assms(2) by simp_all
  have 2: "r' = Inr ?els'"
    using collection_fetch_items [where collectionFetcher = collectionFetcher and pg = pg and Type = Type, OF assms(3)] assms(5) by simp
  have le: "allocated w1 + length hs \<le> allocated w4"
    using assms(4) 1(2) by simp
  have "set (map ident ?els) \<inter> set (map ident ?els') = {}"
    unfolding ident_items_from using le by auto
  moreover have "\<forall>i<length hs. subtype (?els ! i) = Type \<and> el_page (?els ! i) = pg
             \<and> (\<forall>t v. fetch (?els ! i) t v = (Inr (hs ! i), v))"
    by (simp add: nth_items_from ret_def)
  moreover have "\<forall>i<length hs'. \<forall>t v. fetch (?els' ! i) t v = (Inr (hs' ! i), v)"
    by (simp add: nth_items_from ret_def)
  moreover have "hs' = hs \<longrightarrow> (\<forall>i<length hs. fetch (?els' ! i) = fetch (?els ! i))"
    by (simp add: nth_items_from)
  moreover have "distinct (map ident ?els)" "distinct (map ident ?els')"
    by (simp_all add: ident_items_from)
  ultimately show ?thesis
    using 1 2 by (simp add: length_items_from)
qed


lemma await_waitFor_list_page:
  "await_waitFor list_page Document ''//li'' None w
     = (Inr (Some 1), w\<lparr>clock := clock w + 501,
                         calls := calls w @ [XPathCall Document ''//li'' (clock w + 500)]\<rparr>)"
proof -
  let ?pred = "\<lambda>t. first_match (xpath_query list_page Document ''//li'' (clock w + t))"
  have "?pred 500 = (1, Some 1)"
    by (simp add: list_page_def first_match_def)
  then have "run_poller 30000 500 timers_first ?pred 30000
     = \<lparr>trier = False, quitter = False, outcome = Some (500 + 1, Some 1), inflight = [],
        events = [Invoked 500, Resolved (500 + 1) (Some 1)]\<rparr>"
    by (rule run_poller_first_answer) simp_all
  then have "waitFor list_page ?pred None None
     = Inr \<lparr>trier = False, quitter = False, outcome = Some (501, Some 1), inflight = [],
        events = [Invoked 500, Resolved 501 (Some 1)]\<rparr>"
    by (simp add: waitFor_def waitFor_timeout_def waitFor_interval_def timer_delay_def list_page_def)
  then show ?thesis
    by (simp add: await_waitFor_def)
qed

lemma PompPage_xx_fetcher_list_page:
  "PompPage_xx_fetcher list_page ''//li'' None w
     = (Inr [1, 2, 3],
        w\<lparr>clock := clock w + 502,
          calls := calls w @ [XPathCall Document ''//li'' (clock w + 500),
                              XPathCall Document ''//li'' (clock w + 501)]\<rparr>)"
  by (simp add: PompPage_xx_fetcher_def bnd_def await_waitFor_list_page truthy_object_def
      call_xpath_def) (simp add: list_page_def)


theorem collection_fetch_makes_fresh_pinned_elements_witness:
  "PompPage_xx_fetcher list_page ''//li'' None world0
     = (Inr [1, 2, 3],
        world0\<lparr>clock := 502, calls := [XPathCall Document ''//li'' 500, XPathCall Document ''//li'' 501]\<rparr>)
   \<and> (\<exists>els els'.
        fst (co_fetch list_items None world0) = Inr els
        \<and> fst (co_fetch list_items None (snd (co_fetch list_items None world0))) = Inr els'
        \<and> length els = 3 \<and> length els' = 3
        \<and> (\<forall>t v. fetch (els ! 1) t v = (Inr 2, v))
        \<and> fetch (els' ! 1) = fetch (els ! 1)
        \<and> set (map ident els) \<inter> set (map ident els') = {})"
proof -
  let ?cf = "PompPage_xx_fetcher list_page ''//li''"
  let ?F = "PompElementCollection_fetch list_page ?cf None"
  let ?w1 = "world0\<lparr>clock := 502, calls := [XPathCall Document ''//li'' 500, XPathCall Document ''//li'' 501]\<rparr>"
  let ?w2 = "snd (?F None world0)"
  have 1: "?cf None world0 = (Inr [1, 2, 3], ?w1)"
    by (simp add: PompPage_xx_fetcher_list_page world0_def)
  have 2: "?F None world0 = (fst (?F None world0), ?w2)"
    by simp
  have 3: "?cf None ?w2 = (Inr [1, 2, 3], snd (?cf None ?w2))"
    by (simp add: PompPage_xx_fetcher_list_page)
  have 4: "allocated ?w2 \<le> allocated (snd (?cf None ?w2))"
    by (simp add: PompPage_xx_fetcher_list_page)
  have 5: "?F None ?w2 = (fst (?F None ?w2), snd (?F None ?w2))"
    by simp
  from collection_fetch_makes_fresh_pinned_elements [OF 1 2 3 4 5]
  obtain els els' where e: "fst (?F None world0) = Inr els" "fst (?F None ?w2) = Inr els'"
    "length els = length [1, 2, 3::nat]" "length els' = length [1, 2, 3::nat]"
    "\<forall>i<length [1, 2, 3::nat]. subtype (els ! i) = None \<and> el_page (els ! i) = list_page
             \<and> (\<forall>t v. fetch (els ! i) t v = (Inr ([1, 2, 3] ! i), v))"
    "[1, 2, 3::nat] = [1, 2, 3] \<longrightarrow> (\<forall>i<length [1, 2, 3::nat]. fetch (els' ! i) = fetch (els ! i))"
    "set (map ident els) \<inter> set (map ident els') = {}"
    by blast
  from e(5) have "\<forall>t v. fetch (els ! 1) t v = (Inr 2, v)"
    by simp
  moreover from e(6) have "fetch (els' ! 1) = fetch (els ! 1)"
    by simp
  ultimately show ?thesis
    using 1 e(1,2,3,4,7) by (auto simp: list_items_def)
qed

section \<open>find\<close>

lemma find_loop_after_falsy:
  "all_falsy predicate pre w1 = Some w2 \<Longrightarrow>
   find_loop predicate (pre @ rest) w1 = find_loop predicate rest w2"
proof (induction pre arbitrary: w1)
  case Nil
  then show ?case by simp
next
  case (Cons el pre)
  obtain r w' where p: "predicate el w1 = (r, w')" by (cases "predicate el w1")
  with Cons.prems have r: "r = Inr False" and rest: "all_falsy predicate pre w' = Some w2"
    by (auto split: sum.splits bool.splits if_splits)
  show ?case
    using Cons.IH [OF rest] by (simp add: bnd_def p r)
qed

text \<open>
  C6. \<open>find\<close> fetches the collection once and calls the predicate on the items in
  order. If the predicate is falsy on the items before \<open>x\<close> and truthy on \<open>x\<close>, the
  result is \<open>x\<close> and the world is the one the call on \<open>x\<close> left, whatever the items
  after \<open>x\<close> are: the predicate is not called on them. If it is falsy on every item the
  result is \<open>undefined\<close>.
\<close>

theorem find_returns_first_truthy_item:
  "(co_fetch this None w = (Inr (pre @ x # post), w1)
      \<and> all_falsy predicate pre w1 = Some w2
      \<and> predicate x w2 = (Inr True, w3)
    \<longrightarrow> find_coll this predicate w = (Inr (Some x), w3))
   \<and> (co_fetch this None w = (Inr els, w1) \<and> all_falsy predicate els w1 = Some w2
    \<longrightarrow> find_coll this predicate w = (Inr None, w2))"
proof (intro conjI impI)
  assume h: "co_fetch this None w = (Inr (pre @ x # post), w1)
      \<and> all_falsy predicate pre w1 = Some w2
      \<and> predicate x w2 = (Inr True, w3)"
  then have "find_loop predicate (pre @ x # post) w1 = find_loop predicate (x # post) w2"
    by (intro find_loop_after_falsy) simp
  also have "\<dots> = (Inr (Some x), w3)"
    using h by (simp add: bnd_def ret_def)
  finally show "find_coll this predicate w = (Inr (Some x), w3)"
    using h by (simp add: find_coll_def bnd_def)
next
  assume h: "co_fetch this None w = (Inr els, w1) \<and> all_falsy predicate els w1 = Some w2"
  then have "find_loop predicate (els @ []) w1 = find_loop predicate [] w2"
    by (intro find_loop_after_falsy) simp
  then show "find_coll this predicate w = (Inr None, w2)"
    using h by (simp add: find_coll_def bnd_def ret_def)
qed

lemma co_fetch_list_items:
  "co_fetch list_items None world0
     = (Inr [pinned list_page 1, (pinned list_page 2)\<lparr>ident := 1\<rparr>, (pinned list_page 3)\<lparr>ident := 2\<rparr>],
        \<lparr>clock = 502, calls = [XPathCall Document ''//li'' 500, XPathCall Document ''//li'' 501],
          allocated = 3\<rparr>)"
proof -
  have "PompPage_xx_fetcher list_page ''//li'' None world0
      = (Inr [1, 2, 3], \<lparr>clock = 502, calls = [XPathCall Document ''//li'' 500, XPathCall Document ''//li'' 501],
          allocated = 0\<rparr>)"
    by (simp add: PompPage_xx_fetcher_list_page world0_def)
  then show ?thesis
    by (simp add: list_items_def collection_fetch_items pinned_def)
qed

lemma has_class_selected_list_page:
  "has_class ''selected'' ((pinned list_page h)\<lparr>ident := n\<rparr>) w
     = (Inr (h = 2 \<or> h = 3),
        w\<lparr>clock := clock w + 1, calls := calls w @ [PropertyCall h ''className'' (clock w)]\<rparr>)"
  by (simp add: has_class_def classes_def pinned_def bnd_def ret_def call_getProperty_def
      list_page_def js_split_def)

theorem find_returns_first_truthy_item_witness:
  "co_fetch list_items None world0
     = (Inr ([pinned list_page 1] @ (pinned list_page 2)\<lparr>ident := 1\<rparr> # [(pinned list_page 3)\<lparr>ident := 2\<rparr>]),
        \<lparr>clock = 502, calls = [XPathCall Document ''//li'' 500, XPathCall Document ''//li'' 501],
          allocated = 3\<rparr>)
   \<and> all_falsy (has_class ''selected'') [pinned list_page 1]
        \<lparr>clock = 502, calls = [XPathCall Document ''//li'' 500, XPathCall Document ''//li'' 501],
          allocated = 3\<rparr>
       = Some \<lparr>clock = 503, calls = [XPathCall Document ''//li'' 500, XPathCall Document ''//li'' 501,
                  PropertyCall 1 ''className'' 502], allocated = 3\<rparr>
   \<and> find_coll list_items (has_class ''selected'') world0
       = (Inr (Some ((pinned list_page 2)\<lparr>ident := 1\<rparr>)),
          \<lparr>clock = 504, calls = [XPathCall Document ''//li'' 500, XPathCall Document ''//li'' 501,
                  PropertyCall 1 ''className'' 502, PropertyCall 2 ''className'' 503], allocated = 3\<rparr>)
   \<and> find_coll list_items (has_class ''nothing'') world0
       = (Inr None,
          \<lparr>clock = 505, calls = [XPathCall Document ''//li'' 500, XPathCall Document ''//li'' 501,
                  PropertyCall 1 ''className'' 502, PropertyCall 2 ''className'' 503,
                  PropertyCall 3 ''className'' 504], allocated = 3\<rparr>)"
proof -
  let ?w1 = "\<lparr>clock = 502, calls = [XPathCall Document ''//li'' 500, XPathCall Document ''//li'' 501],
          allocated = 3\<rparr>"
  let ?w2 = "\<lparr>clock = 503, calls = [XPathCall Document ''//li'' 500, XPathCall Document ''//li'' 501,
                  PropertyCall 1 ''className'' 502], allocated = 3\<rparr>"
  let ?w3 = "\<lparr>clock = 504, calls = [XPathCall Document ''//li'' 500, XPathCall Document ''//li'' 501,
                  PropertyCall 1 ''className'' 502, PropertyCall 2 ''className'' 503], allocated = 3\<rparr>"
  have 1: "co_fetch list_items None world0
     = (Inr ([pinned list_page 1] @ (pinned list_page 2)\<lparr>ident := 1\<rparr> # [(pinned list_page 3)\<lparr>ident := 2\<rparr>]), ?w1)"
    by (simp add: co_fetch_list_items)
  have 2: "all_falsy (has_class ''selected'') [pinned list_page 1] ?w1 = Some ?w2"
    by (simp add: has_class_def classes_def pinned_def bnd_def ret_def call_getProperty_def
        list_page_def js_split_def)
  have 3: "has_class ''selected'' ((pinned list_page 2)\<lparr>ident := 1\<rparr>) ?w2 = (Inr True, ?w3)"
    by (simp add: has_class_selected_list_page)
  have 4: "find_coll list_items (has_class ''selected'') world0
       = (Inr (Some ((pinned list_page 2)\<lparr>ident := 1\<rparr>)), ?w3)"
    by (rule find_returns_first_truthy_item [THEN conjunct1, THEN mp, OF conjI, OF 1, OF conjI, OF 2 3])
  let ?w4 = "\<lparr>clock = 505, calls = [XPathCall Document ''//li'' 500, XPathCall Document ''//li'' 501,
                  PropertyCall 1 ''className'' 502, PropertyCall 2 ''className'' 503,
                  PropertyCall 3 ''className'' 504], allocated = 3\<rparr>"
  have 5: "co_fetch list_items None world0
     = (Inr [pinned list_page 1, (pinned list_page 2)\<lparr>ident := 1\<rparr>, (pinned list_page 3)\<lparr>ident := 2\<rparr>], ?w1)"
    by (simp add: co_fetch_list_items)
  have 6: "all_falsy (has_class ''nothing'')
       [pinned list_page 1, (pinned list_page 2)\<lparr>ident := 1\<rparr>, (pinned list_page 3)\<lparr>ident := 2\<rparr>] ?w1
     = Some ?w4"
    by (simp add: has_class_def classes_def pinned_def bnd_def ret_def call_getProperty_def
        list_page_def js_split_def)
  have 7: "find_coll list_items (has_class ''nothing'') world0 = (Inr None, ?w4)"
    by (rule find_returns_first_truthy_item [THEN conjunct2, THEN mp, OF conjI, OF 5 6])
  show ?thesis
    by (intro conjI 1 2 4 7)
qed

section \<open>filter\<close>

lemma call_each_Cons:
  "call_each f (x # xs) w
     = (fst (f x w) # fst (call_each f xs (snd (f x w))), snd (call_each f xs (snd (f x w))))"
  by (simp split: prod.splits)

lemma length_call_each: "length (fst (call_each f xs w)) = length xs"
  by (induction xs arbitrary: w) (simp_all add: call_each_Cons del: call_each.simps(2))

lemma call_each_nth:
  "i < length xs \<Longrightarrow>
   fst (call_each f xs w) ! i = fst (f (xs ! i) (snd (call_each f (take i xs) w)))"
proof (induction xs arbitrary: w i)
  case Nil
  then show ?case by simp
next
  case (Cons x xs)
  show ?case
  proof (cases i)
    case 0
    then show ?thesis by (simp add: call_each_Cons del: call_each.simps(2))
  next
    case (Suc j)
    then have "j < length xs" using Cons.prems by simp
    from Cons.IH [OF this] show ?thesis
      by (simp add: Suc call_each_Cons del: call_each.simps(2))
  qed
qed

lemma paired_simps:
  "paired [] ps = []"
  "paired xs [] = []"
  "paired (x # xs) (p # ps) = map_promise (Pair x) p # paired xs ps"
  by (simp_all add: paired_def)

lemma call_each_validation:
  "call_each (validation predicate) els w
     = (paired els (fst (call_each predicate els w)), snd (call_each predicate els w))"
proof (induction els arbitrary: w)
  case Nil
  then show ?case by (simp add: paired_simps)
next
  case (Cons el els)
  have v: "validation predicate el w
      = (map_promise (Pair el) (fst (predicate el w)), snd (predicate el w))"
    by (simp add: validation_def split: prod.splits)
  show ?case
    by (simp add: call_each_Cons v Cons.IH paired_simps del: call_each.simps(2))
qed

lemma first_rejection_paired:
  "length xs = length ps \<Longrightarrow> first_rejection (paired xs ps) = first_rejection ps"
proof (induction xs ps rule: list_induct2)
  case Nil
  then show ?case by (simp add: paired_simps)
next
  case (Cons x xs p ps)
  show ?case
  proof (cases p)
    case (Settled r)
    then show ?thesis using Cons.IH by (cases r) (simp_all add: paired_simps)
  next
    case (Pending nxt eff)
    then show ?thesis using Cons.IH by (simp add: paired_simps)
  qed
qed

lemma all_fulfilled_paired:
  "length xs = length ps \<Longrightarrow> all_fulfilled (paired xs ps) = map_option (zip xs) (all_fulfilled ps)"
proof (induction xs ps rule: list_induct2)
  case Nil
  then show ?case by (simp add: paired_simps)
next
  case (Cons x xs p ps)
  show ?case
  proof (cases p)
    case (Settled r)
    then show ?thesis using Cons.IH
      by (cases r) (simp_all add: paired_simps option.map_comp comp_def)
  next
    case (Pending nxt eff)
    then show ?thesis by (simp add: paired_simps)
  qed
qed

lemma settled_all_paired:
  "length xs = length ps \<Longrightarrow>
   settled_all (paired xs ps) = map_option (map_sum id (zip xs)) (settled_all ps)"
  by (simp add: settled_all_def first_rejection_paired all_fulfilled_paired
      option.map_comp comp_def split: option.splits)

lemma length_paired: "length xs = length ps \<Longrightarrow> length (paired xs ps) = length ps"
  by (simp add: paired_def)

lemma nth_paired:
  "length xs = length ps \<Longrightarrow> i < length ps \<Longrightarrow> paired xs ps ! i = map_promise (Pair (xs ! i)) (ps ! i)"
  by (simp add: paired_def)

lemma run_next_map:
  "run_next (map_promise f p) w = (map_promise f (fst (run_next p w)), snd (run_next p w))"
  by (cases p) simp_all

lemma paired_update:
  "length xs = length ps \<Longrightarrow> i < length ps \<Longrightarrow>
   (paired xs ps)[i := map_promise (Pair (xs ! i)) q] = paired xs (ps[i := q])"
  by (rule nth_equalityI) (auto simp: length_paired nth_paired nth_list_update)

lemma promise_all_paired:
  "length xs = length ps \<Longrightarrow>
   promise_all (paired xs ps) sched w
     = (case promise_all ps sched w of
          (Inl e, w') \<Rightarrow> (Inl e, w')
        | (Inr vs, w') \<Rightarrow> (Inr (zip xs vs), w'))"
proof (induction sched arbitrary: ps w)
  case Nil
  then show ?case
    by (cases "settled_all ps") (auto simp: settled_all_paired split: sum.splits)
next
  case (Cons i sched)
  show ?case
  proof (cases "settled_all ps")
    case (Some r)
    then show ?thesis
      using Cons.prems by (cases r) (simp_all add: settled_all_paired)
  next
    case None
    show ?thesis
    proof (cases "i < length ps")
      case True
      obtain q w' where q: "run_next (ps ! i) w = (q, w')" by (cases "run_next (ps ! i) w")
      have len: "length xs = length (ps[i := q])" using Cons.prems by simp
      show ?thesis
        using Cons.prems None True q Cons.IH [OF len, of w']
        by (simp add: settled_all_paired length_paired nth_paired run_next_map paired_update)
    next
      case False
      then show ?thesis
        using Cons.prems None Cons.IH [OF Cons.prems, of w]
        by (simp add: settled_all_paired length_paired)
    qed
  qed
qed


lemma settles_within_Settled: "settles_within v p k \<Longrightarrow> p = Settled r \<Longrightarrow> r = Inr v"
  by auto

lemma settles_within_0: "settles_within v p 0 \<Longrightarrow> p = Settled (Inr v)"
  by (cases p) simp_all

lemma settles_within_run_next:
  "settles_within v p (Suc k) \<Longrightarrow> p = Pending nxt eff \<Longrightarrow> settles_within v (fst (run_next p w)) k"
  by auto

lemma only_fulfils:
  assumes "list_all2 (\<lambda>v p. \<exists>k. settles_within v p k) vs ps"
  shows "first_rejection ps = None \<and> (\<forall>us. all_fulfilled ps = Some us \<longrightarrow> us = vs)"
  using assms
proof (induction vs ps rule: list_all2_induct)
  case Nil
  then show ?case by simp
next
  case (Cons v vs p ps)
  show ?case
  proof (cases p)
    case (Settled r)
    then have "r = Inr v" using Cons.hyps(1) by auto
    with Settled Cons.IH show ?thesis by auto
  next
    case (Pending nxt eff)
    with Cons.IH show ?thesis by simp
  qed
qed

lemma all_settled_now:
  assumes "list_all2 (\<lambda>v p. settles_within v p 0) vs ps"
  shows "all_fulfilled ps = Some vs"
  using assms
proof (induction vs ps rule: list_all2_induct)
  case Nil
  then show ?case by simp
next
  case (Cons v vs p ps)
  then have "p = Settled (Inr v)" by (auto dest: settles_within_0)
  with Cons.IH show ?case by simp
qed

lemma settled_all_only:
  assumes "length vs = length ps" "\<forall>i<length ps. \<exists>k. settles_within (vs ! i) (ps ! i) k"
    and "settled_all ps = Some r"
  shows "r = Inr vs"
proof -
  have "list_all2 (\<lambda>v p. \<exists>k. settles_within v p k) vs ps"
    using assms(1,2) by (simp add: list_all2_conv_all_nth)
  from only_fulfils [OF this] assms(3) show ?thesis
    by (auto simp: settled_all_def split: option.splits)
qed

lemma promise_all_fulfils:
  assumes "length vs = length ps"
    and "\<forall>i<length ps. \<exists>k\<le>count_list sched i. settles_within (vs ! i) (ps ! i) k"
  shows "fst (promise_all ps sched w) = Inr vs"
  using assms
proof (induction sched arbitrary: ps w)
  case Nil
  then have "list_all2 (\<lambda>v p. settles_within v p 0) vs ps"
    by (simp add: list_all2_conv_all_nth)
  then have f: "all_fulfilled ps = Some vs" by (rule all_settled_now)
  have "list_all2 (\<lambda>v p. \<exists>k. settles_within v p k) vs ps"
    using Nil by (auto simp: list_all2_conv_all_nth)
  then have "first_rejection ps = None" using only_fulfils by blast
  with f show ?case by (simp add: settled_all_def)
next
  case (Cons i sched)
  have some: "\<forall>j<length ps. \<exists>k. settles_within (vs ! j) (ps ! j) k"
    using Cons.prems(2) by blast
  show ?case
  proof (cases "settled_all ps")
    case (Some r)
    then have "r = Inr vs" using Cons.prems(1) some by (intro settled_all_only)
    with Some show ?thesis by simp
  next
    case None
    show ?thesis
    proof (cases "i < length ps")
      case False
      have "\<exists>k\<le>count_list sched j. settles_within (vs ! j) (ps ! j) k" if j: "j < length ps" for j
      proof -
        obtain k where "k \<le> count_list (i # sched) j" "settles_within (vs ! j) (ps ! j) k"
          using Cons.prems(2) j by blast
        moreover have "j \<noteq> i" using j False by auto
        ultimately have "k \<le> count_list sched j \<and> settles_within (vs ! j) (ps ! j) k"
          by simp
        then show ?thesis by blast
      qed
      then have "\<forall>j<length ps. \<exists>k\<le>count_list sched j. settles_within (vs ! j) (ps ! j) k"
        by simp
      from Cons.IH [OF Cons.prems(1) this, of w] None False show ?thesis by simp
    next
      case True
      obtain q w' where q: "run_next (ps ! i) w = (q, w')" by (cases "run_next (ps ! i) w")
      have len: "length vs = length (ps[i := q])" using Cons.prems(1) by simp
      have "\<exists>k\<le>count_list sched j. settles_within (vs ! j) (ps[i := q] ! j) k"
        if j: "j < length ps" for j
      proof (cases "j = i")
        case False
        obtain k where "k \<le> count_list (i # sched) j" "settles_within (vs ! j) (ps ! j) k"
          using Cons.prems(2) j by blast
        then have "k \<le> count_list sched j \<and> settles_within (vs ! j) (ps[i := q] ! j) k"
          using False by simp
        then show ?thesis by blast
      next
        case same: True
        obtain k where "k \<le> count_list (i # sched) i" "settles_within (vs ! i) (ps ! i) k"
          using Cons.prems(2) True by blast
        then have k: "k \<le> Suc (count_list sched i)" "settles_within (vs ! i) (ps ! i) k"
          by simp_all
        show ?thesis
        proof (cases "ps ! i")
          case (Settled r)
          then have "q = Settled (Inr (vs ! i))" using k(2) q by auto
          then have "settles_within (vs ! i) q 0" by simp
          then show ?thesis using same j by auto
        next
          case (Pending nxt eff)
          then obtain k' where k': "k = Suc k'" using k(2) by (cases k) auto
          then have "settles_within (vs ! i) q k'"
            using k(2) q Pending by auto
          moreover have "k' \<le> count_list sched i" using k(1) k' by simp
          ultimately show ?thesis using same j by auto
        qed
      qed
      then have "\<forall>j<length (ps[i := q]). \<exists>k\<le>count_list sched j. settles_within (vs ! j) (ps[i := q] ! j) k"
        by simp
      from Cons.IH [OF len this, of w'] None True q show ?thesis by simp
    qed
  qed
qed

lemma kept_items: "map fst (filter snd (zip xs (map p xs))) = filter p xs"
  by (induction xs) auto

text \<open>
  C7. \<open>filter\<close> fetches the collection once and calls the predicate on every item, in
  the order of the collection, each call in the world the calls before it left and all of
  them before any completes. For every predicate, and in whatever order the pending calls
  then take their steps, \<open>filter\<close> settles as \<open>Promise.all\<close> over the promises of the
  predicate's calls does: rejected with its error, or fulfilled with exactly the items
  whose promise was fulfilled with true, in the order of the fetched collection. When the
  promise of each call can only be fulfilled with the verdict \<open>bs ! i\<close>, and the steps
  give each call as many as it needs, \<open>filter\<close> returns the items with a true verdict,
  the same for every such order.
\<close>

theorem filter_keeps_truthy_items_in_order:
  assumes "co_fetch this None w = (Inr els, w1)"
    and "call_each predicate els w1 = (ps, w2)"
  shows "length ps = length els
       \<and> (\<forall>i<length els. ps ! i = fst (predicate (els ! i) (snd (call_each predicate (take i els) w1))))
       \<and> filter_coll this predicate sched w
           = (case promise_all ps sched w2 of
                (Inl e, w3) \<Rightarrow> (Inl e, w3)
              | (Inr bs, w3) \<Rightarrow> (Inr (map fst (filter snd (zip els bs))), w3))
       \<and> (length bs = length els
            \<and> (\<forall>i<length els. \<exists>k\<le>count_list sched i. settles_within (bs ! i) (ps ! i) k)
          \<longrightarrow> fst (filter_coll this predicate sched w) = Inr (map fst (filter snd (zip els bs))))"
proof -
  have ps: "ps = fst (call_each predicate els w1)" and w2: "w2 = snd (call_each predicate els w1)"
    using assms(2) by simp_all
  have len: "length ps = length els"
    unfolding ps by (rule length_call_each)
  have nth: "\<forall>i<length els. ps ! i = fst (predicate (els ! i) (snd (call_each predicate (take i els) w1)))"
    unfolding ps by (simp add: call_each_nth)
  have val: "call_each (validation predicate) els w1 = (paired els ps, w2)"
    by (simp add: call_each_validation ps w2)
  have all: "promise_all (paired els ps) sched w2
      = (case promise_all ps sched w2 of
           (Inl e, w') \<Rightarrow> (Inl e, w')
         | (Inr vs, w') \<Rightarrow> (Inr (zip els vs), w'))"
    using len by (intro promise_all_paired) simp
  have eq: "filter_coll this predicate sched w
           = (case promise_all ps sched w2 of
                (Inl e, w3) \<Rightarrow> (Inl e, w3)
              | (Inr bs, w3) \<Rightarrow> (Inr (map fst (filter snd (zip els bs))), w3))"
    by (simp add: filter_coll_def bnd_def assms(1) val all ret_def split: prod.splits sum.splits)
  have "fst (filter_coll this predicate sched w) = Inr (map fst (filter snd (zip els bs)))"
    if "length bs = length els"
      and "\<forall>i<length els. \<exists>k\<le>count_list sched i. settles_within (bs ! i) (ps ! i) k"
  proof -
    have "fst (promise_all ps sched w2) = Inr bs"
      using that len by (intro promise_all_fulfils) simp_all
    then show ?thesis
      by (cases "promise_all ps sched w2") (simp add: eq)
  qed
  with len nth eq show ?thesis by blast
qed


lemma selected_async_list_page:
  "selected_async ((pinned list_page h)\<lparr>ident := n\<rparr>) w
     = (Pending
          (\<lambda>v. Pending (\<lambda>u. Settled (Inr (h = 2 \<or> h = 3)))
                         (\<lambda>u. u\<lparr>clock := max (clock u) (clock v + 1)\<rparr>))
          (\<lambda>v. v\<lparr>calls := calls v @ [PropertyCall h ''className'' (clock v)]\<rparr>),
        w)"
  by (simp add: selected_async_def pinned_def ret_def list_page_def js_split_def)

theorem filter_keeps_truthy_items_in_order_witness:
  "co_fetch list_items None world0
     = (Inr [pinned list_page 1, (pinned list_page 2)\<lparr>ident := 1\<rparr>, (pinned list_page 3)\<lparr>ident := 2\<rparr>],
        \<lparr>clock = 502, calls = [XPathCall Document ''//li'' 500, XPathCall Document ''//li'' 501],
          allocated = 3\<rparr>)
   \<and> filter_coll list_items selected_async [0, 1, 2, 2, 0, 1] world0
       = (Inr [(pinned list_page 2)\<lparr>ident := 1\<rparr>, (pinned list_page 3)\<lparr>ident := 2\<rparr>],
          \<lparr>clock = 503, calls = [XPathCall Document ''//li'' 500, XPathCall Document ''//li'' 501,
                  PropertyCall 1 ''className'' 502, PropertyCall 2 ''className'' 502,
                  PropertyCall 3 ''className'' 502], allocated = 3\<rparr>)
   \<and> filter_coll list_items selected_async [0, 1, 2, 0, 1, 2] world0
       = filter_coll list_items selected_async [0, 1, 2, 2, 0, 1] world0
   \<and> count_list [0, 1, 2, 2, 0, 1 :: nat] 1 = 2
   \<and> settles_within True
        (fst (call_each selected_async
           [pinned list_page 1, (pinned list_page 2)\<lparr>ident := 1\<rparr>, (pinned list_page 3)\<lparr>ident := 2\<rparr>]
           \<lparr>clock = 502, calls = [XPathCall Document ''//li'' 500, XPathCall Document ''//li'' 501],
             allocated = 3\<rparr>) ! 1) 2"
proof -
  let ?els = "[pinned list_page 1, (pinned list_page 2)\<lparr>ident := 1\<rparr>, (pinned list_page 3)\<lparr>ident := 2\<rparr>]"
  let ?w1 = "\<lparr>clock = 502, calls = [XPathCall Document ''//li'' 500, XPathCall Document ''//li'' 501],
          allocated = 3\<rparr>"
  let ?w3 = "\<lparr>clock = 503, calls = [XPathCall Document ''//li'' 500, XPathCall Document ''//li'' 501,
                  PropertyCall 1 ''className'' 502, PropertyCall 2 ''className'' 502,
                  PropertyCall 3 ''className'' 502], allocated = 3\<rparr>"
  let ?ps = "fst (call_each selected_async ?els ?w1)"
  have 1: "co_fetch list_items None world0 = (Inr ?els, ?w1)"
    by (rule co_fetch_list_items)
  have sel: "selected_async (pinned list_page h) w
     = (Pending
          (\<lambda>v. Pending (\<lambda>u. Settled (Inr (h = 2 \<or> h = 3)))
                         (\<lambda>u. u\<lparr>clock := max (clock u) (clock v + 1)\<rparr>))
          (\<lambda>v. v\<lparr>calls := calls v @ [PropertyCall h ''className'' (clock v)]\<rparr>),
        w)" for h w
    using selected_async_list_page [where h = h and n = 0 and w = w] by (simp add: pinned_def)
  have 2: "call_each selected_async ?els ?w1
      = ([Pending
            (\<lambda>v. Pending (\<lambda>u. Settled (Inr False))
                           (\<lambda>u. u\<lparr>clock := max (clock u) (clock v + 1)\<rparr>))
            (\<lambda>v. v\<lparr>calls := calls v @ [PropertyCall 1 ''className'' (clock v)]\<rparr>),
          Pending
            (\<lambda>v. Pending (\<lambda>u. Settled (Inr True))
                           (\<lambda>u. u\<lparr>clock := max (clock u) (clock v + 1)\<rparr>))
            (\<lambda>v. v\<lparr>calls := calls v @ [PropertyCall 2 ''className'' (clock v)]\<rparr>),
          Pending
            (\<lambda>v. Pending (\<lambda>u. Settled (Inr True))
                           (\<lambda>u. u\<lparr>clock := max (clock u) (clock v + 1)\<rparr>))
            (\<lambda>v. v\<lparr>calls := calls v @ [PropertyCall 3 ''className'' (clock v)]\<rparr>)],
         ?w1)"
    by (simp add: selected_async_list_page sel)
  have a: "promise_all (fst (call_each selected_async ?els ?w1)) [0, 1, 2, 2, 0, 1] ?w1
      = (Inr [False, True, True], ?w3)"
    unfolding 2 by (simp add: settled_all_def)
  have b: "promise_all (fst (call_each selected_async ?els ?w1)) [0, 1, 2, 0, 1, 2] ?w1
      = (Inr [False, True, True], ?w3)"
    unfolding 2 by (simp add: settled_all_def)
  have e1: "filter_coll list_items selected_async [0, 1, 2, 2, 0, 1] world0
      = (Inr [(pinned list_page 2)\<lparr>ident := 1\<rparr>, (pinned list_page 3)\<lparr>ident := 2\<rparr>], ?w3)"
    using filter_keeps_truthy_items_in_order
        [where sched = "[0, 1, 2, 2, 0, 1]", OF 1 2, THEN conjunct2, THEN conjunct2, THEN conjunct1] a [unfolded 2 fst_conv] by simp
  have e2: "filter_coll list_items selected_async [0, 1, 2, 0, 1, 2] world0
      = (Inr [(pinned list_page 2)\<lparr>ident := 1\<rparr>, (pinned list_page 3)\<lparr>ident := 2\<rparr>], ?w3)"
    using filter_keeps_truthy_items_in_order
        [where sched = "[0, 1, 2, 0, 1, 2]", OF 1 2, THEN conjunct2, THEN conjunct2, THEN conjunct1] b [unfolded 2 fst_conv] by simp
  have s0: "settles_within False (?ps ! 0) 2" and s1: "settles_within True (?ps ! 1) 2"
    and s2: "settles_within True (?ps ! 2) 2"
    unfolding 2 by simp_all
  have c0: "count_list [0, 1, 2, 2, 0, 1 :: nat] 0 = 2" and c1: "count_list [0, 1, 2, 2, 0, 1 :: nat] 1 = 2"
    and c2: "count_list [0, 1, 2, 2, 0, 1 :: nat] 2 = 2"
    by simp_all
  have hyp: "\<forall>i<length ?els. \<exists>k\<le>count_list [0, 1, 2, 2, 0, 1] i.
      settles_within ([False, True, True] ! i) (?ps ! i) k"
  proof (intro allI impI)
    fix i :: nat assume "i < length ?els"
    then consider "i = 0" | "i = 1" | "i = 2" by force
    then show "\<exists>k\<le>count_list [0, 1, 2, 2, 0, 1] i. settles_within ([False, True, True] ! i) (?ps ! i) k"
    proof cases
      case 1
      show ?thesis unfolding 1 using c0 s0 by (intro exI [of _ 2]) simp
    next
      case 2
      show ?thesis unfolding 2 using c1 s1 by (intro exI [of _ 2]) simp
    next
      case 3
      show ?thesis unfolding 3 using c2 s2 by (intro exI [of _ 2]) simp
    qed
  qed
  have "fst (filter_coll list_items selected_async [0, 1, 2, 2, 0, 1] world0)
      = Inr (map fst (filter snd (zip ?els [False, True, True])))"
    using hyp
    by (intro filter_keeps_truthy_items_in_order
        [OF 1 prod.collapse [symmetric], THEN conjunct2, THEN conjunct2, THEN conjunct2, THEN mp]) simp
  show ?thesis
    using 1 e1 e2 c1 s1 by simp
qed

end
